theory Spec2Isabelle
  imports Main "HOL-Library.Product_Lexorder" "HOL-Library.Monad_Syntax"
begin

section \<open>NoteShare: the in-memory store and its request handlers\<close>

text \<open>
  The server keeps every entity in a JavaScript \<open>Map\<close> keyed by a numeric id
  (\<open>server/storage.ts\<close>, class \<open>MemStorage\<close>) and mutates it from the Express
  handlers of \<open>server/routes.ts\<close> and \<open>server/upload.ts\<close>. The embedding keeps
  that shape: the store is a record of insertion-ordered key/value lists and id counters,
  a storage method is a function from the store to its result and the new store, and a
  handler is a function from the store to the HTTP response and the new store. A method
  that throws returns the exception together with the store as it was at the throw.
\<close>

subsection \<open>JavaScript values\<close>

text \<open>
  A coin balance is a JavaScript number, a double. The balances the code computes are
  sums of integers, so a balance is an integer that a double represents, \<open>NaN\<close> (which
  arithmetic on \<open>undefined\<close> yields) or an infinity. Ids and the counters of downloads,
  likes and views count entries of a \<open>Map\<close> or calls of a handler one by one; they are
  kept as integers. A field that the schema leaves optional and nullable holds
  \<open>undefined\<close>, \<open>null\<close> or a value.
\<close>

datatype jsnum = Num int | NaN | PosInfinity | NegInfinity

datatype 'a opt = Undefined | Null | Val 'a

text \<open>The number of binary digits of a positive integer.\<close>

function bit_length :: "int \<Rightarrow> nat" where
  "bit_length m = (if m \<le> 0 then 0 else Suc (bit_length (m div 2)))"
  by pat_completeness auto
termination
  by (relation "measure nat") auto

declare bit_length.simps [simp del]

text \<open>
  The double nearest to an integer: a double has a significand of 53 binary digits, so
  an integer of more digits is rounded to a multiple of the power of two that is left over,
  to the even multiple when it lies halfway; from \<open>2^1024\<close> on the result is an infinity.
\<close>

definition round_double :: "int \<Rightarrow> jsnum" where
  "round_double n =
     (let m = \<bar>n\<bar>; len = bit_length m
      in if len \<le> 53 then Num n
         else
           (let u = 2 ^ (len - 53); q = m div u; r = m mod u;
                q' = (if 2 * r < u then q else if u < 2 * r then q + 1
                      else if even q then q else q + 1);
                v = q' * u
            in if 2 ^ 1024 \<le> v then (if n < 0 then NegInfinity else PosInfinity)
               else Num (if n < 0 then - v else v)))"

text \<open>\<open>a + b\<close> on numbers: the exact sum, rounded.\<close>

fun js_add :: "jsnum \<Rightarrow> jsnum \<Rightarrow> jsnum" where
  "js_add (Num a) (Num b) = round_double (a + b)"
| "js_add NaN _ = NaN"
| "js_add _ NaN = NaN"
| "js_add PosInfinity NegInfinity = NaN"
| "js_add NegInfinity PosInfinity = NaN"
| "js_add PosInfinity _ = PosInfinity"
| "js_add _ PosInfinity = PosInfinity"
| "js_add NegInfinity _ = NegInfinity"
| "js_add _ NegInfinity = NegInfinity"

fun js_neg :: "jsnum \<Rightarrow> jsnum" where
  "js_neg (Num a) = Num (- a)"
| "js_neg NaN = NaN"
| "js_neg PosInfinity = NegInfinity"
| "js_neg NegInfinity = PosInfinity"

fun js_lt :: "jsnum \<Rightarrow> jsnum \<Rightarrow> bool" where
  "js_lt (Num a) (Num b) = (a < b)"
| "js_lt NaN _ = False"
| "js_lt _ NaN = False"
| "js_lt PosInfinity _ = False"
| "js_lt _ NegInfinity = False"
| "js_lt _ PosInfinity = True"
| "js_lt NegInfinity _ = True"

text \<open>\<open>ToNumber\<close>: \<open>undefined\<close> becomes \<open>NaN\<close>, \<open>null\<close> becomes \<open>0\<close>.\<close>

fun to_number :: "int opt \<Rightarrow> jsnum" where
  "to_number Undefined = NaN"
| "to_number Null = Num 0"
| "to_number (Val n) = Num n"

fun truthy :: "bool opt \<Rightarrow> bool" where
  "truthy (Val b) = b"
| "truthy _ = False"

subsection \<open>The \<open>Map\<close> of the store\<close>

text \<open>
  A \<open>Map\<close> iterates in insertion order; \<open>set\<close> on a key that is present replaces the
  value in place, \<open>set\<close> on a new key appends, \<open>delete\<close> removes the entry.
\<close>

type_synonym 'v jsmap = "(int \<times> 'v) list"

definition map_get :: "'v jsmap \<Rightarrow> int \<Rightarrow> 'v option" where
  "map_get m k = map_of m k"

fun map_set :: "int \<Rightarrow> 'v \<Rightarrow> 'v jsmap \<Rightarrow> 'v jsmap" where
  "map_set k v [] = [(k, v)]"
| "map_set k v (e # m) = (if fst e = k then (k, v) # m else e # map_set k v m)"

definition map_delete :: "int \<Rightarrow> 'v jsmap \<Rightarrow> 'v jsmap" where
  "map_delete k m = filter (\<lambda>e. fst e \<noteq> k) m"

definition map_values :: "'v jsmap \<Rightarrow> 'v list" where
  "map_values m = map snd m"

subsection \<open>\<open>Array.prototype.sort\<close> and \<open>slice\<close>\<close>

text \<open>
  \<open>sort\<close> with a comparator is stable: an element moves in front of another only when
  the comparator says so. With a comparator that is a difference of keys every stable sort
  returns the same array, so insertion from the right stands for the engine's algorithm.
\<close>

fun insert_by :: "('a \<Rightarrow> 'a \<Rightarrow> int) \<Rightarrow> 'a \<Rightarrow> 'a list \<Rightarrow> 'a list" where
  "insert_by cmp x [] = [x]"
| "insert_by cmp x (y # ys) = (if cmp x y \<le> 0 then x # y # ys else y # insert_by cmp x ys)"

definition js_sort :: "('a \<Rightarrow> 'a \<Rightarrow> int) \<Rightarrow> 'a list \<Rightarrow> 'a list" where
  "js_sort cmp xs = foldr (insert_by cmp) xs []"

text \<open>\<open>xs.slice(0, n)\<close>: a negative \<open>n\<close> counts from the end of the array.\<close>

definition slice0 :: "int \<Rightarrow> 'a list \<Rightarrow> 'a list" where
  "slice0 n xs = take (nat (if n < 0 then max (int (length xs) + n) 0 else n)) xs"

subsection \<open>Entities (\<open>shared/schema.ts\<close>)\<close>

text \<open>Dates are their \<open>getTime()\<close> value, in milliseconds.\<close>

record user =
  u_id :: int
  username :: string
  email :: string
  password :: string
  coins :: jsnum
  avatarUrl :: "string option"
  u_createdAt :: int

record insert_user =
  iu_username :: string
  iu_email :: string
  iu_password :: string

record user_without_password =
  w_id :: int
  w_username :: string
  w_email :: string
  w_coins :: jsnum
  w_avatarUrl :: "string option"
  w_createdAt :: int

record insert_note =
  in_title :: string
  in_description :: string
  in_userId :: int
  in_category :: string
  in_fileUrl :: string
  in_fileName :: string
  in_fileSize :: int
  in_fileType :: string
  in_isPremium :: "bool opt"
  in_coinPrice :: "int opt"
  in_previewPages :: "int opt"
  in_tags :: "string list opt"

record note_row =
  n_id :: int
  title :: string
  n_description :: string
  n_userId :: int
  n_category :: string
  fileUrl :: string
  fileName :: string
  fileSize :: int
  fileType :: string
  isPremium :: "bool opt"
  coinPrice :: "int opt"
  previewPages :: "int opt"
  n_downloads :: int
  n_likes :: int
  tags :: "string list opt"
  n_createdAt :: int

record insert_comment =
  ic_noteId :: int
  ic_userId :: int
  ic_content :: string

record comment =
  c_id :: int
  c_noteId :: int
  c_userId :: int
  c_content :: string
  c_createdAt :: int

record insert_download =
  id_noteId :: int
  id_userId :: int

record download =
  d_id :: int
  d_noteId :: int
  d_userId :: int
  d_createdAt :: int

record insert_like =
  il_noteId :: int
  il_userId :: int

record like =
  l_id :: int
  l_noteId :: int
  l_userId :: int
  l_createdAt :: int

record insert_discussion =
  idi_userId :: int
  idi_title :: string
  idi_content :: string
  idi_category :: string

record discussion =
  ds_id :: int
  ds_userId :: int
  ds_title :: string
  ds_content :: string
  ds_category :: string
  ds_likes :: int
  ds_views :: int
  ds_isPinned :: bool
  ds_createdAt :: int
  ds_updatedAt :: int

record insert_reply =
  ir_discussionId :: int
  ir_userId :: int
  ir_content :: string
  ir_parentReplyId :: "int opt"
  ir_attachmentUrl :: "string opt"
  ir_attachmentType :: "string opt"

record reply =
  r_id :: int
  r_discussionId :: int
  r_userId :: int
  r_content :: string
  parentReplyId :: "int opt"
  attachmentUrl :: "string opt"
  attachmentType :: "string opt"
  r_likes :: int
  r_createdAt :: int
  r_updatedAt :: int

record insert_follow =
  if_followerId :: int
  if_followedId :: int

record follow =
  f_id :: int
  followerId :: int
  followedId :: int
  f_createdAt :: int

subsection \<open>The store (\<open>MemStorage\<close>)\<close>

record store =
  users :: "user jsmap"
  notes_m :: "note_row jsmap"
  comments :: "comment jsmap"
  downloads :: "download jsmap"
  likes :: "like jsmap"
  discussions :: "discussion jsmap"
  discussionReplies :: "reply jsmap"
  follows :: "follow jsmap"
  currentUserId :: int
  currentNoteId :: int
  currentCommentId :: int
  currentDownloadId :: int
  currentLikeId :: int
  currentDiscussionId :: int
  currentDiscussionReplyId :: int
  currentFollowId :: int

text \<open>The constructor: empty maps, every counter at 1.\<close>

definition init :: store where
  "init = \<lparr> users = [], notes_m = [], comments = [], downloads = [], likes = [],
            discussions = [], discussionReplies = [], follows = [],
            currentUserId = 1, currentNoteId = 1, currentCommentId = 1,
            currentDownloadId = 1, currentLikeId = 1, currentDiscussionId = 1,
            currentDiscussionReplyId = 1, currentFollowId = 1 \<rparr>"

text \<open>The \<open>Error\<close>s the storage methods throw.\<close>

datatype exn = UserNotFound int | NoteNotFound int | DiscussionNotFound int

subsection \<open>Storage methods: users\<close>

definition getUser :: "int \<Rightarrow> store \<Rightarrow> user option" where
  "getUser i s = map_get (users s) i"

definition createUser :: "insert_user \<Rightarrow> int \<Rightarrow> store \<Rightarrow> user \<times> store" where
  "createUser insertUser now s =
     (let i = currentUserId s;
          s1 = s\<lparr>currentUserId := i + 1\<rparr>;
          u = \<lparr> u_id = i, username = iu_username insertUser, email = iu_email insertUser,
                password = iu_password insertUser, coins = Num 0, avatarUrl = None,
                u_createdAt = now \<rparr>
      in (u, s1\<lparr>users := map_set i u (users s1)\<rparr>))"

definition updateUserCoins :: "int \<Rightarrow> jsnum \<Rightarrow> store \<Rightarrow> (exn + user) \<times> store" where
  "updateUserCoins userId c s =
     (case getUser userId s of
        None \<Rightarrow> (Inl (UserNotFound userId), s)
      | Some u \<Rightarrow>
          (let updatedUser = u\<lparr>coins := js_add (coins u) c\<rparr>
           in (Inr updatedUser, s\<lparr>users := map_set userId updatedUser (users s)\<rparr>)))"

subsection \<open>Storage methods: notes\<close>

definition getNoteById :: "int \<Rightarrow> store \<Rightarrow> note_row option" where
  "getNoteById i s = map_get (notes_m s) i"

text \<open>
  \<open>createNote\<close> stores the note first and awards the upload coins second; when the
  award throws, the note is already in the map.
\<close>

definition createNote :: "insert_note \<Rightarrow> int \<Rightarrow> store \<Rightarrow> (exn + note_row) \<times> store" where
  "createNote insertNote now s =
     (let i = currentNoteId s;
          s1 = s\<lparr>currentNoteId := i + 1\<rparr>;
          n = \<lparr> n_id = i, title = in_title insertNote,
                n_description = in_description insertNote, n_userId = in_userId insertNote,
                n_category = in_category insertNote, fileUrl = in_fileUrl insertNote,
                fileName = in_fileName insertNote, fileSize = in_fileSize insertNote,
                fileType = in_fileType insertNote, isPremium = in_isPremium insertNote,
                coinPrice = in_coinPrice insertNote,
                previewPages = in_previewPages insertNote, n_downloads = 0, n_likes = 0,
                tags = in_tags insertNote, n_createdAt = now \<rparr>;
          s2 = s1\<lparr>notes_m := map_set i n (notes_m s1)\<rparr>;
          coinsToAward = (if truthy (isPremium n) then 10 else 5)
      in case updateUserCoins (n_userId n) (Num coinsToAward) s2 of
           (Inl e, s3) \<Rightarrow> (Inl e, s3)
         | (Inr _, s3) \<Rightarrow> (Inr n, s3))"

definition getRecentNotes :: "int \<Rightarrow> store \<Rightarrow> note_row list" where
  "getRecentNotes limit s =
     slice0 limit (js_sort (\<lambda>a b. n_createdAt b - n_createdAt a) (map_values (notes_m s)))"

definition updateNoteDownloads :: "int \<Rightarrow> store \<Rightarrow> (exn + note_row) \<times> store" where
  "updateNoteDownloads noteId s =
     (case getNoteById noteId s of
        None \<Rightarrow> (Inl (NoteNotFound noteId), s)
      | Some n \<Rightarrow>
          (let updatedNote = n\<lparr>n_downloads := n_downloads n + 1\<rparr>
           in (Inr updatedNote, s\<lparr>notes_m := map_set noteId updatedNote (notes_m s)\<rparr>)))"

definition updateNoteLikes :: "int \<Rightarrow> bool \<Rightarrow> store \<Rightarrow> (exn + note_row) \<times> store" where
  "updateNoteLikes noteId increment s =
     (case getNoteById noteId s of
        None \<Rightarrow> (Inl (NoteNotFound noteId), s)
      | Some n \<Rightarrow>
          (let updatedLikes = (if increment then n_likes n + 1 else n_likes n - 1);
               updatedNote = n\<lparr>n_likes := max 0 updatedLikes\<rparr>
           in (Inr updatedNote, s\<lparr>notes_m := map_set noteId updatedNote (notes_m s)\<rparr>)))"

subsection \<open>Storage methods: comments, downloads, likes\<close>

definition createComment :: "insert_comment \<Rightarrow> int \<Rightarrow> store \<Rightarrow> comment \<times> store" where
  "createComment insertComment now s =
     (let i = currentCommentId s;
          s1 = s\<lparr>currentCommentId := i + 1\<rparr>;
          c = \<lparr> c_id = i, c_noteId = ic_noteId insertComment,
                c_userId = ic_userId insertComment, c_content = ic_content insertComment,
                c_createdAt = now \<rparr>
      in (c, s1\<lparr>comments := map_set i c (comments s1)\<rparr>))"

definition recordDownload :: "insert_download \<Rightarrow> int \<Rightarrow> store \<Rightarrow> (exn + download) \<times> store" where
  "recordDownload insertDownload now s =
     (let i = currentDownloadId s;
          s1 = s\<lparr>currentDownloadId := i + 1\<rparr>;
          d = \<lparr> d_id = i, d_noteId = id_noteId insertDownload,
                d_userId = id_userId insertDownload, d_createdAt = now \<rparr>;
          s2 = s1\<lparr>downloads := map_set i d (downloads s1)\<rparr>
      in case updateNoteDownloads (id_noteId insertDownload) s2 of
           (Inl e, s3) \<Rightarrow> (Inl e, s3)
         | (Inr _, s3) \<Rightarrow> (Inr d, s3))"

definition getLikeByUserAndNote :: "int \<Rightarrow> int \<Rightarrow> store \<Rightarrow> like option" where
  "getLikeByUserAndNote userId noteId s =
     find (\<lambda>l. l_userId l = userId \<and> l_noteId l = noteId) (map_values (likes s))"

text \<open>The result is the new \<open>Like\<close>, or \<open>null\<close> (here \<open>None\<close>) after an unlike.\<close>

definition createOrToggleLike :: "insert_like \<Rightarrow> int \<Rightarrow> store \<Rightarrow> (exn + like option) \<times> store" where
  "createOrToggleLike insertLike now s =
     (case getLikeByUserAndNote (il_userId insertLike) (il_noteId insertLike) s of
        Some existingLike \<Rightarrow>
          (let s1 = s\<lparr>likes := map_delete (l_id existingLike) (likes s)\<rparr>
           in case updateNoteLikes (il_noteId insertLike) False s1 of
                (Inl e, s2) \<Rightarrow> (Inl e, s2)
              | (Inr _, s2) \<Rightarrow> (Inr None, s2))
      | None \<Rightarrow>
          (let i = currentLikeId s;
               s1 = s\<lparr>currentLikeId := i + 1\<rparr>;
               l = \<lparr> l_id = i, l_noteId = il_noteId insertLike,
                     l_userId = il_userId insertLike, l_createdAt = now \<rparr>;
               s2 = s1\<lparr>likes := map_set i l (likes s1)\<rparr>
           in case updateNoteLikes (il_noteId insertLike) True s2 of
                (Inl e, s3) \<Rightarrow> (Inl e, s3)
              | (Inr _, s3) \<Rightarrow> (Inr (Some l), s3)))"

subsection \<open>Storage methods: discussions and replies\<close>

definition createDiscussion :: "insert_discussion \<Rightarrow> int \<Rightarrow> store \<Rightarrow> discussion \<times> store" where
  "createDiscussion insertDiscussion now s =
     (let i = currentDiscussionId s;
          s1 = s\<lparr>currentDiscussionId := i + 1\<rparr>;
          d = \<lparr> ds_id = i, ds_userId = idi_userId insertDiscussion,
                ds_title = idi_title insertDiscussion,
                ds_content = idi_content insertDiscussion,
                ds_category = idi_category insertDiscussion, ds_likes = 0, ds_views = 0,
                ds_isPinned = False, ds_createdAt = now, ds_updatedAt = now \<rparr>
      in (d, s1\<lparr>discussions := map_set i d (discussions s1)\<rparr>))"

definition getDiscussionById :: "int \<Rightarrow> store \<Rightarrow> discussion option" where
  "getDiscussionById i s = map_get (discussions s) i"

definition updateDiscussionViews :: "int \<Rightarrow> store \<Rightarrow> (exn + discussion) \<times> store" where
  "updateDiscussionViews discussionId s =
     (case getDiscussionById discussionId s of
        None \<Rightarrow> (Inl (DiscussionNotFound discussionId), s)
      | Some d \<Rightarrow>
          (let updatedDiscussion = d\<lparr>ds_views := ds_views d + 1\<rparr>
           in (Inr updatedDiscussion,
               s\<lparr>discussions := map_set discussionId updatedDiscussion (discussions s)\<rparr>)))"

definition createDiscussionReply :: "insert_reply \<Rightarrow> int \<Rightarrow> store \<Rightarrow> reply \<times> store" where
  "createDiscussionReply insertReply now s =
     (let i = currentDiscussionReplyId s;
          s1 = s\<lparr>currentDiscussionReplyId := i + 1\<rparr>;
          r = \<lparr> r_id = i, r_discussionId = ir_discussionId insertReply,
                r_userId = ir_userId insertReply, r_content = ir_content insertReply,
                parentReplyId = ir_parentReplyId insertReply,
                attachmentUrl = ir_attachmentUrl insertReply,
                attachmentType = ir_attachmentType insertReply, r_likes = 0,
                r_createdAt = now, r_updatedAt = now \<rparr>
      in (r, s1\<lparr>discussionReplies := map_set i r (discussionReplies s1)\<rparr>))"

definition getDiscussionRepliesByDiscussionId :: "int \<Rightarrow> store \<Rightarrow> reply list" where
  "getDiscussionRepliesByDiscussionId discussionId s =
     js_sort (\<lambda>a b. r_createdAt a - r_createdAt b)
       (filter (\<lambda>r. r_discussionId r = discussionId) (map_values (discussionReplies s)))"

subsection \<open>Storage methods: follows\<close>

definition createFollow :: "insert_follow \<Rightarrow> int \<Rightarrow> store \<Rightarrow> follow \<times> store" where
  "createFollow insertFollow now s =
     (let i = currentFollowId s;
          s1 = s\<lparr>currentFollowId := i + 1\<rparr>;
          f = \<lparr> f_id = i, followerId = if_followerId insertFollow,
                followedId = if_followedId insertFollow, f_createdAt = now \<rparr>
      in (f, s1\<lparr>follows := map_set i f (follows s1)\<rparr>))"

definition getFollowByIds :: "int \<Rightarrow> int \<Rightarrow> store \<Rightarrow> follow option" where
  "getFollowByIds follower followed s =
     find (\<lambda>f. followerId f = follower \<and> followedId f = followed) (map_values (follows s))"

definition removeFollow :: "int \<Rightarrow> int \<Rightarrow> store \<Rightarrow> store" where
  "removeFollow follower followed s =
     (case getFollowByIds follower followed s of
        Some f \<Rightarrow> s\<lparr>follows := map_delete (f_id f) (follows s)\<rparr>
      | None \<Rightarrow> s)"

definition getFollowersByUserId :: "int \<Rightarrow> store \<Rightarrow> user list" where
  "getFollowersByUserId userId s =
     (let followerIds = map followerId
            (filter (\<lambda>f. followedId f = userId) (map_values (follows s)))
      in filter (\<lambda>u. u_id u \<in> set followerIds) (map_values (users s)))"

definition getFollowingByUserId :: "int \<Rightarrow> store \<Rightarrow> user list" where
  "getFollowingByUserId userId s =
     (let followingIds = map followedId
            (filter (\<lambda>f. followerId f = userId) (map_values (follows s)))
      in filter (\<lambda>u. u_id u \<in> set followingIds) (map_values (users s)))"

subsection \<open>Request bodies and the insert schemas\<close>

text \<open>
  A field of a JSON body is missing, \<open>null\<close>, of the wrong type, or a value of the type
  the schema expects. The insert schemas are generated from the table definitions
  (\<open>createInsertSchema(...).omit(...)\<close>): a \<open>notNull\<close> column without default is
  required, a \<open>notNull\<close> column with a default is optional, any other column is optional
  and nullable, and columns left out by \<open>omit\<close> are stripped. The schemas check types,
  and for an \<open>integer\<close> column that the number lies in the range of a 32-bit integer;
  no column carries any other range check. \<open>parse\<close> throws a \<open>ZodError\<close> (here
  \<open>None\<close>) when a check fails. The ids a handler adds to a body (\<open>userId\<close>, \<open>noteId\<close>,
  \<open>discussionId\<close>, \<open>followerId\<close>, \<open>followedId\<close>) are the id of the authenticated user
  and ids of stored users, notes and discussions, which are never deleted and whose ids
  the counters issue from 1: they are taken to pass the range check.
\<close>

datatype 'a field = Missing | JNull | IllTyped | Given 'a

fun required :: "'a field \<Rightarrow> 'a option" where
  "required (Given v) = Some v"
| "required _ = None"

fun optional :: "'a field \<Rightarrow> 'a opt option" where
  "optional Missing = Some Undefined"
| "optional (Given v) = Some (Val v)"
| "optional _ = None"

fun nullish :: "'a field \<Rightarrow> 'a opt option" where
  "nullish Missing = Some Undefined"
| "nullish JNull = Some Null"
| "nullish (Given v) = Some (Val v)"
| "nullish IllTyped = None"

text \<open>The range of an \<open>integer\<close> column.\<close>

definition int32 :: "int \<Rightarrow> bool" where
  "int32 v \<longleftrightarrow> - 2147483648 \<le> v \<and> v \<le> 2147483647"

fun required_int :: "int field \<Rightarrow> int option" where
  "required_int (Given v) = (if int32 v then Some v else None)"
| "required_int _ = None"

fun nullish_int :: "int field \<Rightarrow> int opt option" where
  "nullish_int Missing = Some Undefined"
| "nullish_int JNull = Some Null"
| "nullish_int (Given v) = (if int32 v then Some (Val v) else None)"
| "nullish_int IllTyped = None"

text \<open>
  The file descriptor of an upload is read by the handler itself; it is taken as typed:
  \<open>fd_fileName\<close> is \<open>None\<close> when the name is absent, and \<open>fd_fileSize\<close> when the
  size is.
\<close>

record file_data =
  fd_fileName :: "string option"
  fd_fileSize :: "int option"

record note_body =
  nb_fileData :: "file_data option"
  nb_title :: "string field"
  nb_description :: "string field"
  nb_category :: "string field"
  nb_isPremium :: "bool field"
  nb_coinPrice :: "int field"
  nb_previewPages :: "int field"
  nb_tags :: "string list field"

record discussion_body =
  db_title :: "string field"
  db_content :: "string field"
  db_category :: "string field"

record reply_body =
  rb_content :: "string field"
  rb_parentReplyId :: "int field"
  rb_attachmentUrl :: "string field"
  rb_attachmentType :: "string field"

text \<open>
  \<open>insertNoteSchema.parse({...noteData, userId, fileUrl, fileName, fileSize, fileType})\<close>;
  the last five are set by the handler.
\<close>

definition insertNoteSchema_parse ::
  "note_body \<Rightarrow> int \<Rightarrow> string \<Rightarrow> string \<Rightarrow> int \<Rightarrow> string \<Rightarrow> insert_note option" where
  "insertNoteSchema_parse b userId url name sz ext =
     do { t \<leftarrow> required (nb_title b);
          d \<leftarrow> required (nb_description b);
          c \<leftarrow> required (nb_category b);
          fs \<leftarrow> required_int (Given sz);
          p \<leftarrow> optional (nb_isPremium b);
          cp \<leftarrow> nullish_int (nb_coinPrice b);
          pp \<leftarrow> nullish_int (nb_previewPages b);
          tg \<leftarrow> nullish (nb_tags b);
          Some \<lparr> in_title = t, in_description = d, in_userId = userId, in_category = c,
                 in_fileUrl = url, in_fileName = name, in_fileSize = fs,
                 in_fileType = ext, in_isPremium = p, in_coinPrice = cp,
                 in_previewPages = pp, in_tags = tg \<rparr> }"

text \<open>\<open>insertCommentSchema.parse({...req.body, noteId, userId})\<close>\<close>

definition insertCommentSchema_parse :: "string field \<Rightarrow> int \<Rightarrow> int \<Rightarrow> insert_comment option" where
  "insertCommentSchema_parse content noteId userId =
     do { c \<leftarrow> required content;
          Some \<lparr> ic_noteId = noteId, ic_userId = userId, ic_content = c \<rparr> }"

text \<open>\<open>insertDiscussionSchema.parse({...req.body, userId})\<close>\<close>

definition insertDiscussionSchema_parse :: "discussion_body \<Rightarrow> int \<Rightarrow> insert_discussion option" where
  "insertDiscussionSchema_parse b userId =
     do { t \<leftarrow> required (db_title b);
          c \<leftarrow> required (db_content b);
          g \<leftarrow> required (db_category b);
          Some \<lparr> idi_userId = userId, idi_title = t, idi_content = c, idi_category = g \<rparr> }"

text \<open>\<open>insertDiscussionReplySchema.parse({...req.body, discussionId, userId})\<close>\<close>

definition insertDiscussionReplySchema_parse :: "reply_body \<Rightarrow> int \<Rightarrow> int \<Rightarrow> insert_reply option" where
  "insertDiscussionReplySchema_parse b discussionId userId =
     do { c \<leftarrow> required (rb_content b);
          p \<leftarrow> nullish_int (rb_parentReplyId b);
          u \<leftarrow> nullish (rb_attachmentUrl b);
          t \<leftarrow> nullish (rb_attachmentType b);
          Some \<lparr> ir_discussionId = discussionId, ir_userId = userId, ir_content = c,
                 ir_parentReplyId = p, ir_attachmentUrl = u, ir_attachmentType = t \<rparr> }"

subsection \<open>Responses\<close>

datatype payload =
    Message string
  | Invalid string
  | InsufficientCoins "int opt" jsnum
  | NoteJ note_row
  | NotesJ "note_row list"
  | CommentJ comment
  | IsLiked bool
  | DownloadOk string string
  | Following bool
  | DiscussionJ discussion
  | ReplyJ reply
  | RepliesJ "reply list"
  | UserRow user
  | UserJ user_without_password
  | UsersJ "user list"

text \<open>\<open>res.status(code).json(body)\<close>\<close>

datatype response = Json int payload

definition ALLOWED_FILE_TYPES :: "string list" where
  "ALLOWED_FILE_TYPES =
     [''pdf'', ''docx'', ''txt'', ''ppt'', ''pptx'', ''zip'', ''csv'', ''xlsx'', ''json'',
      ''md'', ''tex'']"

subsection \<open>Handlers that change the store\<close>

text \<open>
  \<open>auth\<close> is \<open>None\<close> when \<open>req.isAuthenticated()\<close> is false and \<open>Some (req.user.id)\<close>
  otherwise; \<open>now\<close> is the value of \<open>new Date()\<close> during the request. A handler's
  \<open>catch\<close> turns a storage exception into status 500 and leaves the store as the
  throwing method left it.
\<close>

text \<open>
  \<open>POST /api/notes\<close>. \<open>uniqueId\<close> is the value of \<open>randomBytes(8).toString("hex")\<close> and
  \<open>fileExt\<close> the value of \<open>path.extname(fileData.fileName).slice(1).toLowerCase()\<close>,
  both computed by the runtime's libraries.
\<close>

definition post_notes ::
  "int option \<Rightarrow> note_body \<Rightarrow> string \<Rightarrow> string \<Rightarrow> int \<Rightarrow> store \<Rightarrow> response \<times> store" where
  "post_notes auth b uniqueId fileExt now s =
     (case auth of
        None \<Rightarrow> (Json 401 (Message ''Unauthorized''), s)
      | Some userId \<Rightarrow>
          (case nb_fileData b of
             None \<Rightarrow> (Json 400 (Message ''File data is required''), s)
           | Some fd \<Rightarrow>
               (case fd_fileName fd of
                  None \<Rightarrow> (Json 400 (Message ''File data is required''), s)
                | Some name \<Rightarrow>
                    if name = [] then (Json 400 (Message ''File data is required''), s)
                    else if fileExt \<notin> set ALLOWED_FILE_TYPES
                    then (Json 400
                           (Message (''File type not supported. Allowed types: '' @
                              ''pdf, docx, txt, ppt, pptx, zip, csv, xlsx, json, md, tex'')), s)
                    else
                      (let fileName' = uniqueId @ ''-'' @ name;
                           fileUrl' = ''/api/files/'' @ fileName';
                           fileSize' = (case fd_fileSize fd of None \<Rightarrow> 0 | Some n \<Rightarrow> n)
                       in case insertNoteSchema_parse b userId fileUrl' name fileSize' fileExt of
                            None \<Rightarrow> (Json 400 (Invalid ''Invalid note data''), s)
                          | Some validatedData \<Rightarrow>
                              (case createNote validatedData now s of
                                 (Inl e, s') \<Rightarrow> (Json 500 (Message ''Failed to upload note''), s')
                               | (Inr n, s') \<Rightarrow> (Json 201 (NoteJ n), s'))))))"

text \<open>\<open>POST /api/notes/:noteId/comments\<close>\<close>

definition post_comments ::
  "int option \<Rightarrow> int \<Rightarrow> string field \<Rightarrow> int \<Rightarrow> store \<Rightarrow> response \<times> store" where
  "post_comments auth noteId content now s =
     (case auth of
        None \<Rightarrow> (Json 401 (Message ''Unauthorized''), s)
      | Some userId \<Rightarrow>
          (case getNoteById noteId s of
             None \<Rightarrow> (Json 404 (Message ''Note not found''), s)
           | Some n \<Rightarrow>
               (case insertCommentSchema_parse content noteId userId of
                  None \<Rightarrow> (Json 400 (Invalid ''Invalid comment data''), s)
                | Some commentData \<Rightarrow>
                    (case createComment commentData now s of
                       (c, s') \<Rightarrow> (Json 201 (CommentJ c), s')))))"

text \<open>\<open>POST /api/notes/:noteId/like\<close>\<close>

definition post_like :: "int option \<Rightarrow> int \<Rightarrow> int \<Rightarrow> store \<Rightarrow> response \<times> store" where
  "post_like auth noteId now s =
     (case auth of
        None \<Rightarrow> (Json 401 (Message ''Unauthorized''), s)
      | Some userId \<Rightarrow>
          (case getNoteById noteId s of
             None \<Rightarrow> (Json 404 (Message ''Note not found''), s)
           | Some n \<Rightarrow>
               (case createOrToggleLike \<lparr> il_noteId = noteId, il_userId = userId \<rparr> now s of
                  (Inl e, s') \<Rightarrow> (Json 500 (Message ''Failed to process like''), s')
                | (Inr result, s') \<Rightarrow> (Json 200 (IsLiked (result \<noteq> None)), s'))))"

text \<open>
  The block \<open>if (note.isPremium) { ... }\<close> of \<open>POST /api/notes/:noteId/download\<close>:
  \<open>Some r\<close> when the handler returns \<open>r\<close> from inside the block, \<open>None\<close> when control
  leaves the block and the download is recorded.
\<close>

definition premium_charge :: "int \<Rightarrow> note_row \<Rightarrow> store \<Rightarrow> response option \<times> store" where
  "premium_charge userId n s =
     (if truthy (isPremium n) then
        (case getUser userId s of
           None \<Rightarrow> (Some (Json 404 (Message ''User not found'')), s)
         | Some u \<Rightarrow>
             if js_lt (coins u) (to_number (coinPrice n))
             then (Some (Json 403 (InsufficientCoins (coinPrice n) (coins u))), s)
             else
               (case updateUserCoins userId (js_neg (to_number (coinPrice n))) s of
                  (Inl e, s1) \<Rightarrow> (Some (Json 500 (Message ''Failed to process download'')), s1)
                | (Inr _, s1) \<Rightarrow>
                    if userId \<noteq> n_userId n then
                      (case updateUserCoins (n_userId n) (to_number (coinPrice n)) s1 of
                         (Inl e, s2) \<Rightarrow>
                           (Some (Json 500 (Message ''Failed to process download'')), s2)
                       | (Inr _, s2) \<Rightarrow> (None, s2))
                    else (None, s1)))
      else (None, s))"

definition post_download :: "int option \<Rightarrow> int \<Rightarrow> int \<Rightarrow> store \<Rightarrow> response \<times> store" where
  "post_download auth noteId now s =
     (case auth of
        None \<Rightarrow> (Json 401 (Message ''Unauthorized''), s)
      | Some userId \<Rightarrow>
          (case getNoteById noteId s of
             None \<Rightarrow> (Json 404 (Message ''Note not found''), s)
           | Some n \<Rightarrow>
               (case premium_charge userId n s of
                  (Some r, s1) \<Rightarrow> (r, s1)
                | (None, s1) \<Rightarrow>
                    (case recordDownload \<lparr> id_noteId = noteId, id_userId = userId \<rparr> now s1 of
                       (Inl e, s2) \<Rightarrow> (Json 500 (Message ''Failed to process download''), s2)
                     | (Inr _, s2) \<Rightarrow> (Json 200 (DownloadOk (fileUrl n) (fileName n)), s2)))))"

text \<open>\<open>POST /api/users/:userId/follow\<close>\<close>

definition post_follow :: "int option \<Rightarrow> int \<Rightarrow> int \<Rightarrow> store \<Rightarrow> response \<times> store" where
  "post_follow auth followed now s =
     (case auth of
        None \<Rightarrow> (Json 401 (Message ''Unauthorized''), s)
      | Some follower \<Rightarrow>
          if follower = followed then (Json 400 (Message ''Cannot follow yourself''), s)
          else
            (case getUser followed s of
               None \<Rightarrow> (Json 404 (Message ''User to follow not found''), s)
             | Some followedUser \<Rightarrow>
                 (case getFollowByIds follower followed s of
                    Some existingFollow \<Rightarrow>
                      (Json 200 (Following False), removeFollow follower followed s)
                  | None \<Rightarrow>
                      (case createFollow
                              \<lparr> if_followerId = follower, if_followedId = followed \<rparr> now s of
                         (f, s') \<Rightarrow> (Json 200 (Following True), s')))))"

text \<open>
  \<open>GET /api/discussions/:id\<close> counts a view; the body is the discussion as read before
  the increment.
\<close>

definition get_discussion :: "int \<Rightarrow> store \<Rightarrow> response \<times> store" where
  "get_discussion i s =
     (case getDiscussionById i s of
        None \<Rightarrow> (Json 404 (Message ''Discussion not found''), s)
      | Some d \<Rightarrow>
          (case updateDiscussionViews i s of
             (Inl e, s') \<Rightarrow> (Json 500 (Message ''Failed to fetch discussion''), s')
           | (Inr _, s') \<Rightarrow> (Json 200 (DiscussionJ d), s')))"

text \<open>\<open>POST /api/discussions\<close>\<close>

definition post_discussions ::
  "int option \<Rightarrow> discussion_body \<Rightarrow> int \<Rightarrow> store \<Rightarrow> response \<times> store" where
  "post_discussions auth b now s =
     (case auth of
        None \<Rightarrow> (Json 401 (Message ''Unauthorized''), s)
      | Some userId \<Rightarrow>
          (case insertDiscussionSchema_parse b userId of
             None \<Rightarrow> (Json 400 (Invalid ''Invalid discussion data''), s)
           | Some discussionData \<Rightarrow>
               (case createDiscussion discussionData now s of
                  (d, s') \<Rightarrow> (Json 201 (DiscussionJ d), s'))))"

text \<open>\<open>POST /api/discussions/:discussionId/replies\<close>\<close>

definition post_replies ::
  "int option \<Rightarrow> int \<Rightarrow> reply_body \<Rightarrow> int \<Rightarrow> store \<Rightarrow> response \<times> store" where
  "post_replies auth discussionId b now s =
     (case auth of
        None \<Rightarrow> (Json 401 (Message ''Unauthorized''), s)
      | Some userId \<Rightarrow>
          (case getDiscussionById discussionId s of
             None \<Rightarrow> (Json 404 (Message ''Discussion not found''), s)
           | Some d \<Rightarrow>
               (case insertDiscussionReplySchema_parse b discussionId userId of
                  None \<Rightarrow> (Json 400 (Invalid ''Invalid reply data''), s)
                | Some replyData \<Rightarrow>
                    (case createDiscussionReply replyData now s of
                       (r, s') \<Rightarrow> (Json 201 (ReplyJ r), s')))))"

subsection \<open>Handlers that only read\<close>

text \<open>\<open>GET /api/users/:userId\<close>: the password is taken out of the record.\<close>

definition get_user :: "int \<Rightarrow> store \<Rightarrow> response" where
  "get_user userId s =
     (case getUser userId s of
        None \<Rightarrow> Json 404 (Message ''User not found'')
      | Some u \<Rightarrow>
          Json 200 (UserJ \<lparr> w_id = u_id u, w_username = username u, w_email = email u,
                            w_coins = coins u, w_avatarUrl = avatarUrl u,
                            w_createdAt = u_createdAt u \<rparr>))"

text \<open>\<open>GET /api/users/:userId/followers\<close> and \<open>.../following\<close>\<close>

definition get_followers :: "int \<Rightarrow> store \<Rightarrow> response" where
  "get_followers userId s = Json 200 (UsersJ (getFollowersByUserId userId s))"

definition get_following :: "int \<Rightarrow> store \<Rightarrow> response" where
  "get_following userId s = Json 200 (UsersJ (getFollowingByUserId userId s))"

text \<open>\<open>GET /api/discussions/:discussionId/replies\<close>\<close>

definition get_replies :: "int \<Rightarrow> store \<Rightarrow> response" where
  "get_replies discussionId s = Json 200 (RepliesJ (getDiscussionRepliesByDiscussionId discussionId s))"

subsection \<open>Requests and reachable stores\<close>

text \<open>
  The registration handler is part of \<open>server/auth.ts\<close>; what it does to the store is a
  call of \<open>createUser\<close>. The step \<open>Register\<close> makes that call for any user data, which
  covers every registration the handler admits.
\<close>

datatype request =
    Register insert_user
  | PostNotes "int option" note_body string string
  | PostComments "int option" int "string field"
  | PostLike "int option" int
  | PostDownload "int option" int
  | PostFollow "int option" int
  | GetDiscussion int
  | PostDiscussions "int option" discussion_body
  | PostReplies "int option" int reply_body

fun handle :: "request \<Rightarrow> int \<Rightarrow> store \<Rightarrow> response \<times> store" where
  "handle (Register insertUser) now s =
     (case createUser insertUser now s of (u, s') \<Rightarrow> (Json 201 (UserRow u), s'))"
| "handle (PostNotes auth b uniqueId fileExt) now s = post_notes auth b uniqueId fileExt now s"
| "handle (PostComments auth noteId content) now s = post_comments auth noteId content now s"
| "handle (PostLike auth noteId) now s = post_like auth noteId now s"
| "handle (PostDownload auth noteId) now s = post_download auth noteId now s"
| "handle (PostFollow auth followed) now s = post_follow auth followed now s"
| "handle (GetDiscussion i) now s = get_discussion i s"
| "handle (PostDiscussions auth b) now s = post_discussions auth b now s"
| "handle (PostReplies auth discussionId b) now s = post_replies auth discussionId b now s"

text \<open>
  A store is reachable when a sequence of requests, each at any time, leads to it
  from the constructor's store.
\<close>

inductive reachable :: "store \<Rightarrow> bool" where
  reachable_init: "reachable init"
| reachable_step: "reachable s \<Longrightarrow> reachable (snd (handle r now s))"

text \<open>Serving a list of timed requests in order.\<close>

fun run :: "(request \<times> int) list \<Rightarrow> store \<Rightarrow> store" where
  "run [] s = s"
| "run ((r, now) # rs) s = run rs (snd (handle r now s))"

section \<open>Properties of reachable stores\<close>

subsection \<open>Counting records\<close>

text \<open>The number of \<open>Download\<close> (\<open>Like\<close>) records that reference a note.\<close>

definition download_count :: "int \<Rightarrow> store \<Rightarrow> int" where
  "download_count noteId s =
     int (length (filter (\<lambda>d. d_noteId d = noteId) (map_values (downloads s))))"

definition like_count :: "int \<Rightarrow> store \<Rightarrow> int" where
  "like_count noteId s =
     int (length (filter (\<lambda>l. l_noteId l = noteId) (map_values (likes s))))"

definition likes_of_pair :: "int \<Rightarrow> int \<Rightarrow> store \<Rightarrow> like list" where
  "likes_of_pair userId noteId s =
     filter (\<lambda>l. l_userId l = userId \<and> l_noteId l = noteId) (map_values (likes s))"

definition follows_of_pair :: "int \<Rightarrow> int \<Rightarrow> store \<Rightarrow> follow list" where
  "follows_of_pair follower followed s =
     filter (\<lambda>f. followerId f = follower \<and> followedId f = followed) (map_values (follows s))"

subsection \<open>The invariant\<close>

text \<open>
  Notes sit in the map in the order of their ids, below the next id, each under its own
  id. Downloads and likes sit below their next id and reference stored notes; likes and
  follows are stored under their own id, at most one per pair. Each note's counters agree
  with the records.
\<close>

definition notes_ok :: "store \<Rightarrow> bool" where
  "notes_ok s \<longleftrightarrow>
     sorted_wrt (<) (map fst (notes_m s)) \<and>
     (\<forall>e \<in> set (notes_m s). fst e < currentNoteId s \<and> n_id (snd e) = fst e)"

definition downloads_ok :: "store \<Rightarrow> bool" where
  "downloads_ok s \<longleftrightarrow>
     (\<forall>e \<in> set (downloads s).
        fst e < currentDownloadId s \<and> d_noteId (snd e) \<in> fst ` set (notes_m s))"

definition likes_ok :: "store \<Rightarrow> bool" where
  "likes_ok s \<longleftrightarrow>
     distinct (map fst (likes s)) \<and>
     (\<forall>e \<in> set (likes s).
        fst e < currentLikeId s \<and> l_id (snd e) = fst e \<and>
        l_noteId (snd e) \<in> fst ` set (notes_m s)) \<and>
     (\<forall>u n. length (likes_of_pair u n s) \<le> 1)"

definition follows_ok :: "store \<Rightarrow> bool" where
  "follows_ok s \<longleftrightarrow>
     distinct (map fst (follows s)) \<and>
     (\<forall>e \<in> set (follows s). fst e < currentFollowId s \<and> f_id (snd e) = fst e) \<and>
     (\<forall>a b. length (follows_of_pair a b s) \<le> 1)"

definition counters_ok :: "store \<Rightarrow> bool" where
  "counters_ok s \<longleftrightarrow>
     (\<forall>e \<in> set (notes_m s).
        n_downloads (snd e) = download_count (n_id (snd e)) s \<and>
        n_likes (snd e) = like_count (n_id (snd e)) s)"

definition store_inv :: "store \<Rightarrow> bool" where
  "store_inv s \<longleftrightarrow> notes_ok s \<and> downloads_ok s \<and> likes_ok s \<and> follows_ok s \<and> counters_ok s"

subsection \<open>Safe integers\<close>

text \<open>
  \<open>Number.isSafeInteger\<close>: the integers of magnitude below \<open>2^53\<close>, on which the
  arithmetic of doubles is exact.
\<close>

definition safe_integer :: "int \<Rightarrow> bool" where
  "safe_integer n \<longleftrightarrow> \<bar>n\<bar> < 9007199254740992"

subsection \<open>Orders of the recent notes\<close>

text \<open>
  \<open>recent_spec\<close> follows the words of the specification: descending by \<open>createdAt\<close>,
  notes of equal \<open>createdAt\<close> by id descending, the first \<open>limit\<close> of them.
\<close>

definition recent_spec :: "int \<Rightarrow> store \<Rightarrow> note_row list" where
  "recent_spec limit s =
     take (nat limit) (sort_key (\<lambda>n. (- n_createdAt n, - n_id n)) (map_values (notes_m s)))"

text \<open>
  \<open>recent_by_id_ascending\<close> orders notes of equal \<open>createdAt\<close> by id ascending; a
  negative \<open>limit\<close> drops that many notes from the end.
\<close>

definition recent_by_id_ascending :: "int \<Rightarrow> store \<Rightarrow> note_row list" where
  "recent_by_id_ascending limit s =
     (let sorted_notes = sort_key (\<lambda>n. (- n_createdAt n, n_id n)) (map_values (notes_m s))
      in if 0 \<le> limit then take (nat limit) sorted_notes
         else take (length sorted_notes - nat (- limit)) sorted_notes)"

text \<open>The order itself: later first, and among notes of the same time the lower id first.\<close>

definition recent_before :: "note_row \<Rightarrow> note_row \<Rightarrow> bool" where
  "recent_before a b \<longleftrightarrow>
     n_createdAt b < n_createdAt a \<or> (n_createdAt a = n_createdAt b \<and> n_id a < n_id b)"

subsection \<open>Varying the stored passwords\<close>

text \<open>The store in which each user's password is replaced by \<open>f\<close> of the user's record.\<close>

definition set_passwords :: "(user \<Rightarrow> string) \<Rightarrow> store \<Rightarrow> store" where
  "set_passwords f s =
     s\<lparr>users := map (\<lambda>e. (fst e, (snd e)\<lparr>password := f (snd e)\<rparr>)) (users s)\<rparr>"

subsection \<open>Example stores\<close>

text \<open>Concrete requests and the stores they lead to, for evaluating the handlers.\<close>

definition sample_user :: "string \<Rightarrow> insert_user" where
  "sample_user name =
     \<lparr> iu_username = name, iu_email = name @ ''@x.org'', iu_password = ''pw-'' @ name \<rparr>"

definition sample_upload :: "bool field \<Rightarrow> int field \<Rightarrow> note_body" where
  "sample_upload premium price =
     \<lparr> nb_fileData = Some \<lparr> fd_fileName = Some ''a.pdf'', fd_fileSize = Some 10 \<rparr>,
       nb_title = Given ''T'', nb_description = Given ''D'', nb_category = Given ''C'',
       nb_isPremium = premium, nb_coinPrice = price, nb_previewPages = Missing,
       nb_tags = Missing \<rparr>"

text \<open>A validated upload whose owner is user 7.\<close>

definition orphan_upload :: insert_note where
  "orphan_upload =
     \<lparr> in_title = ''T'', in_description = ''D'', in_userId = 7, in_category = ''C'',
       in_fileUrl = ''/api/files/00-a.pdf'', in_fileName = ''a.pdf'', in_fileSize = 10,
       in_fileType = ''pdf'', in_isPremium = Undefined, in_coinPrice = Undefined,
       in_previewPages = Undefined, in_tags = Undefined \<rparr>"

text \<open>
  Three users; users 1 and 2 each upload one premium note (priced 5 and 7) and hold the
  10 coins of the upload, user 3 holds none.
\<close>

definition market :: store where
  "market =
     run [(Register (sample_user ''a''), 1), (Register (sample_user ''b''), 2),
          (Register (sample_user ''c''), 2),
          (PostNotes (Some 1) (sample_upload (Given True) (Given 5)) ''00'' ''pdf'', 3),
          (PostNotes (Some 2) (sample_upload (Given True) (Given 7)) ''01'' ''pdf'', 4)] init"

text \<open>
  After that, user 2 downloads and likes note 1, user 1 likes note 1, and user 2 follows
  user 1.
\<close>

definition engaged :: store where
  "engaged =
     run [(PostDownload (Some 2) 1, 5), (PostLike (Some 2) 1, 6), (PostLike (Some 1) 1, 7),
          (PostFollow (Some 2) 1, 8)] market"

text \<open>One user uploads three free notes, the first two within the same millisecond.\<close>

definition tied :: store where
  "tied =
     run [(Register (sample_user ''a''), 1),
          (PostNotes (Some 1) (sample_upload Missing Missing) ''00'' ''pdf'', 3),
          (PostNotes (Some 1) (sample_upload Missing Missing) ''01'' ''pdf'', 3),
          (PostNotes (Some 1) (sample_upload Missing Missing) ''02'' ''pdf'', 4)] init"

text \<open>
  One user opens two discussions and replies to the second: reply 1 belongs to
  discussion 2.
\<close>

definition sample_discussion :: discussion_body where
  "sample_discussion =
     \<lparr> db_title = Given ''Q'', db_content = Given ''?'', db_category = Given ''C'' \<rparr>"

definition sample_reply :: "int field \<Rightarrow> reply_body" where
  "sample_reply parent =
     \<lparr> rb_content = Given ''hi'', rb_parentReplyId = parent, rb_attachmentUrl = Missing,
       rb_attachmentType = Missing \<rparr>"

definition forum :: store where
  "forum =
     run [(Register (sample_user ''a''), 1), (PostDiscussions (Some 1) sample_discussion, 2),
          (PostDiscussions (Some 1) sample_discussion, 3),
          (PostReplies (Some 1) 2 (sample_reply Missing), 4)] init"

text \<open>A single registered user.\<close>

definition newcomer :: store where
  "newcomer = run [(Register (sample_user ''a''), 1)] init"

text \<open>
  Two users register; user 1 uploads a premium note with \<open>coinPrice = -100\<close>; user 2
  downloads it.
\<close>

definition exploit :: store where
  "exploit =
     run [(Register (sample_user ''a''), 1), (Register (sample_user ''b''), 2),
          (PostNotes (Some 1) (sample_upload (Given True) (Given (- 100))) ''00'' ''pdf'', 3),
          (PostDownload (Some 2) 1, 4)] init"

text \<open>
  User 2 uploads a premium note without a \<open>coinPrice\<close> and downloads it, which turns
  the balance of user 2 into \<open>NaN\<close>; user 1 uploads a premium note priced 5.
\<close>

definition priceless :: store where
  "priceless =
     run [(Register (sample_user ''a''), 1), (Register (sample_user ''b''), 2),
          (PostNotes (Some 2) (sample_upload (Given True) Missing) ''00'' ''pdf'', 3),
          (PostDownload (Some 2) 1, 4),
          (PostNotes (Some 1) (sample_upload (Given True) (Given 5)) ''01'' ''pdf'', 5)] init"

text \<open>The store \<open>market\<close> with the balance of user 1 raised from 10 to \<open>2^53\<close>.\<close>

definition rich :: store where
  "rich = snd (updateUserCoins 1 (Num 9007199254740982) market)"

section \<open>Lemmas\<close>

subsection \<open>Rounding\<close>

lemma bit_length_le: "m < 2 ^ k \<Longrightarrow> bit_length m \<le> k"
proof (induction k arbitrary: m)
  case 0
  then show ?case by (simp add: bit_length.simps [of m])
next
  case (Suc k)
  show ?case
  proof (cases "m \<le> 0")
    case True
    then show ?thesis by (simp add: bit_length.simps [of m])
  next
    case False
    from Suc.prems have "m div 2 < 2 ^ k" by simp
    then have "bit_length (m div 2) \<le> k" by (rule Suc.IH)
    with False show ?thesis by (simp add: bit_length.simps [of m])
  qed
qed

lemma round_double_safe: "safe_integer n \<Longrightarrow> round_double n = Num n"
proof -
  assume "safe_integer n"
  then have "\<bar>n\<bar> < 2 ^ 53" by (simp add: safe_integer_def)
  then have "bit_length \<bar>n\<bar> \<le> 53" by (rule bit_length_le)
  then show ?thesis by (simp add: round_double_def Let_def)
qed

subsection \<open>The \<open>Map\<close> operations\<close>

lemma map_get_map_set:
  "map_get (map_set k v m) k' = (if k' = k then Some v else map_get m k')"
  by (induction m) (auto simp: map_get_def)

lemma map_get_fresh: "k \<notin> fst ` set m \<Longrightarrow> map_get m k = None"
  by (simp add: map_get_def map_of_eq_None_iff)

lemma map_set_fresh: "k \<notin> fst ` set m \<Longrightarrow> map_set k v m = m @ [(k, v)]"
  by (induction m) auto

lemma keys_map_set_present: "k \<in> fst ` set m \<Longrightarrow> map fst (map_set k v m) = map fst m"
  by (induction m) auto

lemma set_map_set:
  "distinct (map fst m) \<Longrightarrow> set (map_set k v m) = insert (k, v) {e \<in> set m. fst e \<noteq> k}"
  by (induction m) (auto simp: rev_image_eqI)

lemma set_map_delete: "set (map_delete k m) = {e \<in> set m. fst e \<noteq> k}"
  by (simp add: map_delete_def)

lemma distinct_map_delete: "distinct (map fst m) \<Longrightarrow> distinct (map fst (map_delete k m))"
  by (simp add: map_delete_def distinct_map_filter)

lemma map_get_in: "map_get m k = Some v \<Longrightarrow> (k, v) \<in> set m"
  by (simp add: map_get_def map_of_SomeD)

text \<open>Counting the values that satisfy \<open>P\<close>.\<close>

lemma count_map_delete:
  "distinct (map fst m) \<Longrightarrow> (k, v0) \<in> set m \<Longrightarrow>
   int (length (filter P (map_values (map_delete k m)))) =
     int (length (filter P (map_values m))) - (if P v0 then 1 else 0)"
proof (induction m)
  case Nil
  then show ?case by simp
next
  case (Cons e m)
  show ?case
  proof (cases "fst e = k")
    case True
    with Cons.prems have "e = (k, v0)" and "k \<notin> fst ` set m"
      by (auto simp: rev_image_eqI)
    then have "filter (\<lambda>e. fst e \<noteq> k) m = m"
      by (auto simp: filter_id_conv)
    with \<open>e = (k, v0)\<close> show ?thesis
      by (simp add: map_delete_def map_values_def)
  next
    case False
    with Cons show ?thesis
      by (auto simp: map_delete_def map_values_def)
  qed
qed

lemma find_SomeD: "find P xs = Some x \<Longrightarrow> x \<in> set xs \<and> P x"
  by (induction xs) (auto split: if_splits)

lemma find_None_count: "find P xs = None \<Longrightarrow> filter P xs = []"
  by (induction xs) (auto split: if_splits)

subsection \<open>The invariant holds in every reachable store\<close>

lemmas inv_defs = store_inv_def notes_ok_def downloads_ok_def likes_ok_def follows_ok_def
  counters_ok_def download_count_def like_count_def likes_of_pair_def follows_of_pair_def

lemma store_inv_init: "store_inv init"
  by (simp add: inv_defs init_def map_values_def)

lemma inv_createUser: "store_inv (snd (createUser u now s)) = store_inv s"
  by (simp add: createUser_def inv_defs Let_def)

lemma inv_updateUserCoins: "store_inv (snd (updateUserCoins i c s)) = store_inv s"
  by (simp add: updateUserCoins_def inv_defs Let_def split: option.splits)

lemma inv_createComment: "store_inv (snd (createComment c now s)) = store_inv s"
  by (simp add: createComment_def inv_defs Let_def)

lemma inv_createDiscussion: "store_inv (snd (createDiscussion d now s)) = store_inv s"
  by (simp add: createDiscussion_def inv_defs Let_def)

lemma inv_updateDiscussionViews: "store_inv (snd (updateDiscussionViews i s)) = store_inv s"
  by (simp add: updateDiscussionViews_def inv_defs Let_def split: option.splits)

lemma inv_createDiscussionReply: "store_inv (snd (createDiscussionReply r now s)) = store_inv s"
  by (simp add: createDiscussionReply_def inv_defs Let_def)

lemma inv_createNote:
  assumes "store_inv s"
  shows "store_inv (snd (createNote ins now s))"
proof -
  have fresh: "currentNoteId s \<notin> fst ` set (notes_m s)"
    using assms by (auto simp: store_inv_def notes_ok_def)
  have "d_noteId (snd e) \<noteq> currentNoteId s" if "e \<in> set (downloads s)" for e
  proof -
    from that assms have "d_noteId (snd e) \<in> fst ` set (notes_m s)"
      by (simp add: store_inv_def downloads_ok_def)
    with fresh show ?thesis by metis
  qed
  then have nodl: "filter (\<lambda>d. d_noteId d = currentNoteId s) (map_values (downloads s)) = []"
    by (auto simp: map_values_def filter_empty_conv)
  have "l_noteId (snd e) \<noteq> currentNoteId s" if "e \<in> set (likes s)" for e
  proof -
    from that assms have "l_noteId (snd e) \<in> fst ` set (notes_m s)"
      by (simp add: store_inv_def likes_ok_def)
    with fresh show ?thesis by metis
  qed
  then have nolk: "filter (\<lambda>l. l_noteId l = currentNoteId s) (map_values (likes s)) = []"
    by (auto simp: map_values_def filter_empty_conv)
  show ?thesis
    using assms fresh nodl nolk
    apply (simp add: createNote_def Let_def split: prod.splits sum.splits)
    apply (simp add: updateUserCoins_def getUser_def Let_def split: option.splits)
    apply (auto simp: inv_defs map_set_fresh sorted_wrt_append)
    done
qed


lemma recordDownload_effect:
  assumes "getNoteById (id_noteId d) s = Some n"
  shows "recordDownload d now s =
     (Inr \<lparr> d_id = currentDownloadId s, d_noteId = id_noteId d, d_userId = id_userId d,
            d_createdAt = now \<rparr>,
      s\<lparr>currentDownloadId := currentDownloadId s + 1,
        downloads := map_set (currentDownloadId s)
          \<lparr> d_id = currentDownloadId s, d_noteId = id_noteId d, d_userId = id_userId d,
            d_createdAt = now \<rparr> (downloads s),
        notes_m := map_set (id_noteId d) (n\<lparr>n_downloads := n_downloads n + 1\<rparr>) (notes_m s)\<rparr>)"
  using assms
  by (simp add: recordDownload_def updateNoteDownloads_def getNoteById_def Let_def)

lemma notes_distinct: "notes_ok s \<Longrightarrow> distinct (map fst (notes_m s))"
  by (simp add: notes_ok_def strict_sorted_iff)

lemma inv_recordDownload:
  assumes inv: "store_inv s" and ex: "getNoteById (id_noteId d) s = Some n"
  shows "store_inv (snd (recordDownload d now s))"
proof -
  let ?i = "currentDownloadId s" and ?k = "id_noteId d"
  let ?d = "\<lparr> d_id = ?i, d_noteId = ?k, d_userId = id_userId d, d_createdAt = now \<rparr>"
  let ?n = "n\<lparr>n_downloads := n_downloads n + 1\<rparr>"
  let ?s = "s\<lparr>currentDownloadId := ?i + 1, downloads := map_set ?i ?d (downloads s),
              notes_m := map_set ?k ?n (notes_m s)\<rparr>"
  from inv have nok: "notes_ok s" and dok: "downloads_ok s" and lok: "likes_ok s"
    and fok: "follows_ok s" and cok: "counters_ok s"
    by (simp_all add: store_inv_def)
  have dist: "distinct (map fst (notes_m s))" by (rule notes_distinct [OF nok])
  from ex have mem: "(?k, n) \<in> set (notes_m s)"
    by (simp add: getNoteById_def map_get_in)
  then have present: "?k \<in> fst ` set (notes_m s)" by (metis fst_conv image_eqI)
  from mem nok have nid: "n_id n = ?k" by (auto simp: notes_ok_def)
  have keys: "map fst (map_set ?k ?n (notes_m s)) = map fst (notes_m s)"
    by (rule keys_map_set_present [OF present])
  then have keyset: "fst ` set (map_set ?k ?n (notes_m s)) = fst ` set (notes_m s)"
    by (metis list.set_map)
  have elems: "set (map_set ?k ?n (notes_m s)) = insert (?k, ?n) {e \<in> set (notes_m s). fst e \<noteq> ?k}"
    by (rule set_map_set [OF dist])
  have fresh: "?i \<notin> fst ` set (downloads s)"
    using dok by (auto simp: downloads_ok_def)
  have dl: "map_set ?i ?d (downloads s) = downloads s @ [(?i, ?d)]"
    by (rule map_set_fresh [OF fresh])
  have "notes_ok ?s"
    using nok nid mem by (auto simp: notes_ok_def keys elems)
  moreover have "downloads_ok ?s"
    using dok present by (auto simp: downloads_ok_def dl keyset)
  moreover have "likes_ok ?s"
    using lok by (simp add: likes_ok_def keyset likes_of_pair_def)
  moreover have "follows_ok ?s"
    using fok by (simp add: follows_ok_def follows_of_pair_def)
  moreover have "counters_ok ?s"
    unfolding counters_ok_def
  proof
    fix e assume "e \<in> set (notes_m ?s)"
    then consider "e = (?k, ?n)" | "e \<in> set (notes_m s)" "fst e \<noteq> ?k"
      by (auto simp: elems)
    then show "n_downloads (snd e) = download_count (n_id (snd e)) ?s \<and>
               n_likes (snd e) = like_count (n_id (snd e)) ?s"
    proof cases
      case 1
      with cok mem nid show ?thesis
        by (auto simp: counters_ok_def download_count_def like_count_def dl map_values_def)
    next
      case 2
      with nok have "n_id (snd e) \<noteq> ?k" by (auto simp: notes_ok_def)
      with 2 cok show ?thesis
        by (auto simp: counters_ok_def download_count_def like_count_def dl map_values_def)
    qed
  qed
  ultimately have "store_inv ?s" by (simp add: store_inv_def)
  then show ?thesis by (simp add: recordDownload_effect [OF ex])
qed


lemma toggle_existing_effect:
  assumes "getLikeByUserAndNote (il_userId il) (il_noteId il) s = Some l"
    and "getNoteById (il_noteId il) s = Some n"
  shows "createOrToggleLike il now s =
     (Inr None,
      s\<lparr>likes := map_delete (l_id l) (likes s),
        notes_m := map_set (il_noteId il) (n\<lparr>n_likes := max 0 (n_likes n - 1)\<rparr>) (notes_m s)\<rparr>)"
  using assms
  by (simp add: createOrToggleLike_def updateNoteLikes_def getNoteById_def Let_def)

lemma toggle_new_effect:
  assumes "getLikeByUserAndNote (il_userId il) (il_noteId il) s = None"
    and "getNoteById (il_noteId il) s = Some n"
  shows "createOrToggleLike il now s =
     (Inr (Some \<lparr> l_id = currentLikeId s, l_noteId = il_noteId il, l_userId = il_userId il,
                  l_createdAt = now \<rparr>),
      s\<lparr>currentLikeId := currentLikeId s + 1,
        likes := map_set (currentLikeId s)
          \<lparr> l_id = currentLikeId s, l_noteId = il_noteId il, l_userId = il_userId il,
            l_createdAt = now \<rparr> (likes s),
        notes_m := map_set (il_noteId il) (n\<lparr>n_likes := max 0 (n_likes n + 1)\<rparr>) (notes_m s)\<rparr>)"
  using assms
  by (simp add: createOrToggleLike_def updateNoteLikes_def getNoteById_def Let_def)

lemma stored_like:
  assumes "likes_ok s" and "getLikeByUserAndNote u k s = Some l"
  shows "(l_id l, l) \<in> set (likes s) \<and> l_userId l = u \<and> l_noteId l = k"
proof -
  from assms(2) have "l \<in> set (map_values (likes s))" and "l_userId l = u \<and> l_noteId l = k"
    by (auto simp: getLikeByUserAndNote_def dest: find_SomeD)
  then obtain e where "e \<in> set (likes s)" and "snd e = l"
    by (auto simp: map_values_def)
  with assms(1) have "e = (l_id l, l)"
    by (metis likes_ok_def prod.collapse)
  with \<open>e \<in> set (likes s)\<close> \<open>l_userId l = u \<and> l_noteId l = k\<close> show ?thesis by simp
qed

lemma inv_toggle_existing:
  assumes inv: "store_inv s" and ex: "getNoteById (il_noteId il) s = Some n"
    and lk: "getLikeByUserAndNote (il_userId il) (il_noteId il) s = Some l"
  shows "store_inv (snd (createOrToggleLike il now s))"
proof -
  let ?k = "il_noteId il"
  let ?n = "n\<lparr>n_likes := max 0 (n_likes n - 1)\<rparr>"
  let ?s = "s\<lparr>likes := map_delete (l_id l) (likes s),
              notes_m := map_set ?k ?n (notes_m s)\<rparr>"
  from inv have nok: "notes_ok s" and dok: "downloads_ok s" and lok: "likes_ok s"
    and fok: "follows_ok s" and cok: "counters_ok s"
    by (simp_all add: store_inv_def)
  have dist: "distinct (map fst (notes_m s))" by (rule notes_distinct [OF nok])
  from ex have mem: "(?k, n) \<in> set (notes_m s)"
    by (simp add: getNoteById_def map_get_in)
  then have present: "?k \<in> fst ` set (notes_m s)" by (metis fst_conv image_eqI)
  from mem nok have nid: "n_id n = ?k" by (auto simp: notes_ok_def)
  have keys: "map fst (map_set ?k ?n (notes_m s)) = map fst (notes_m s)"
    by (rule keys_map_set_present [OF present])
  then have keyset: "fst ` set (map_set ?k ?n (notes_m s)) = fst ` set (notes_m s)"
    by (metis list.set_map)
  have elems: "set (map_set ?k ?n (notes_m s)) = insert (?k, ?n) {e \<in> set (notes_m s). fst e \<noteq> ?k}"
    by (rule set_map_set [OF dist])
  from stored_like [OF lok lk] have lmem: "(l_id l, l) \<in> set (likes s)" and lnote: "l_noteId l = ?k"
    by simp_all
  from lok have ldist: "distinct (map fst (likes s))" by (simp add: likes_ok_def)
  have cnt: "int (length (filter P (map_values (map_delete (l_id l) (likes s))))) =
             int (length (filter P (map_values (likes s)))) - (if P l then 1 else 0)" for P
    by (rule count_map_delete [OF ldist lmem])
  have lc: "like_count x ?s = like_count x s - (if x = ?k then 1 else 0)" for x
    using cnt [of "\<lambda>l. l_noteId l = x"] lnote by (auto simp: like_count_def)
  have "0 \<le> like_count ?k ?s" by (simp add: like_count_def)
  with lc [of ?k] have pos: "1 \<le> like_count ?k s" by simp
  have "notes_ok ?s"
    using nok nid mem by (auto simp: notes_ok_def keys elems)
  moreover have "downloads_ok ?s"
    using dok by (simp add: downloads_ok_def keyset)
  moreover have "likes_ok ?s"
  proof -
    have "length (likes_of_pair u x ?s) \<le> 1" for u x
    proof -
      have "int (length (likes_of_pair u x ?s)) \<le> int (length (likes_of_pair u x s))"
        using cnt [of "\<lambda>l. l_userId l = u \<and> l_noteId l = x"] by (simp add: likes_of_pair_def)
      moreover from lok have "length (likes_of_pair u x s) \<le> 1" by (simp add: likes_ok_def)
      ultimately show ?thesis by linarith
    qed
    moreover have "distinct (map fst (likes ?s))"
      using ldist by (simp add: distinct_map_delete)
    moreover have "\<forall>e \<in> set (likes ?s). fst e < currentLikeId ?s \<and> l_id (snd e) = fst e \<and>
        l_noteId (snd e) \<in> fst ` set (notes_m ?s)"
      using lok by (simp add: likes_ok_def keyset set_map_delete)
    ultimately show ?thesis by (simp add: likes_ok_def)
  qed
  moreover have "follows_ok ?s"
    using fok by (simp add: follows_ok_def follows_of_pair_def)
  moreover have "counters_ok ?s"
    unfolding counters_ok_def
  proof
    fix e assume "e \<in> set (notes_m ?s)"
    then consider "e = (?k, ?n)" | "e \<in> set (notes_m s)" "fst e \<noteq> ?k"
      by (auto simp: elems)
    then show "n_downloads (snd e) = download_count (n_id (snd e)) ?s \<and>
               n_likes (snd e) = like_count (n_id (snd e)) ?s"
    proof cases
      case 1
      from cok mem have "n_downloads n = download_count (n_id n) s" and "n_likes n = like_count (n_id n) s"
        by (auto simp: counters_ok_def)
      with 1 nid pos lc [of ?k] show ?thesis
        by (simp add: download_count_def)
    next
      case 2
      with nok have "n_id (snd e) \<noteq> ?k" by (auto simp: notes_ok_def)
      moreover from 2 cok have "n_downloads (snd e) = download_count (n_id (snd e)) s"
        and "n_likes (snd e) = like_count (n_id (snd e)) s"
        by (auto simp: counters_ok_def)
      ultimately show ?thesis using lc [of "n_id (snd e)"]
        by (simp add: download_count_def)
    qed
  qed
  ultimately have "store_inv ?s" by (simp add: store_inv_def)
  then show ?thesis by (simp add: toggle_existing_effect [OF lk ex])
qed


lemma inv_toggle_new:
  assumes inv: "store_inv s" and ex: "getNoteById (il_noteId il) s = Some n"
    and lk: "getLikeByUserAndNote (il_userId il) (il_noteId il) s = None"
  shows "store_inv (snd (createOrToggleLike il now s))"
proof -
  let ?k = "il_noteId il" and ?i = "currentLikeId s"
  let ?l = "\<lparr> l_id = ?i, l_noteId = ?k, l_userId = il_userId il, l_createdAt = now \<rparr>"
  let ?n = "n\<lparr>n_likes := max 0 (n_likes n + 1)\<rparr>"
  let ?s = "s\<lparr>currentLikeId := ?i + 1, likes := map_set ?i ?l (likes s),
              notes_m := map_set ?k ?n (notes_m s)\<rparr>"
  from inv have nok: "notes_ok s" and dok: "downloads_ok s" and lok: "likes_ok s"
    and fok: "follows_ok s" and cok: "counters_ok s"
    by (simp_all add: store_inv_def)
  have dist: "distinct (map fst (notes_m s))" by (rule notes_distinct [OF nok])
  from ex have mem: "(?k, n) \<in> set (notes_m s)"
    by (simp add: getNoteById_def map_get_in)
  then have present: "?k \<in> fst ` set (notes_m s)" by (metis fst_conv image_eqI)
  from mem nok have nid: "n_id n = ?k" by (auto simp: notes_ok_def)
  have keys: "map fst (map_set ?k ?n (notes_m s)) = map fst (notes_m s)"
    by (rule keys_map_set_present [OF present])
  then have keyset: "fst ` set (map_set ?k ?n (notes_m s)) = fst ` set (notes_m s)"
    by (metis list.set_map)
  have elems: "set (map_set ?k ?n (notes_m s)) = insert (?k, ?n) {e \<in> set (notes_m s). fst e \<noteq> ?k}"
    by (rule set_map_set [OF dist])
  have fresh: "?i \<notin> fst ` set (likes s)"
    using lok by (auto simp: likes_ok_def)
  have lks: "map_set ?i ?l (likes s) = likes s @ [(?i, ?l)]"
    by (rule map_set_fresh [OF fresh])
  have lc: "like_count x ?s = like_count x s + (if x = ?k then 1 else 0)" for x
    by (auto simp: like_count_def lks map_values_def)
  from lk have none: "likes_of_pair (il_userId il) ?k s = []"
    by (simp add: getLikeByUserAndNote_def likes_of_pair_def find_None_count)
  have "notes_ok ?s"
    using nok nid mem by (auto simp: notes_ok_def keys elems)
  moreover have "downloads_ok ?s"
    using dok by (simp add: downloads_ok_def keyset)
  moreover have "likes_ok ?s"
  proof -
    have "length (likes_of_pair u x ?s) \<le> 1" for u x
    proof (cases "u = il_userId il \<and> x = ?k")
      case True
      with none show ?thesis by (simp add: likes_of_pair_def lks map_values_def)
    next
      case False
      then have "likes_of_pair u x ?s = likes_of_pair u x s"
        by (auto simp: likes_of_pair_def lks map_values_def)
      with lok show ?thesis by (simp add: likes_ok_def)
    qed
    moreover have "distinct (map fst (likes ?s))"
      using lok fresh by (simp add: likes_ok_def lks)
    moreover have "\<forall>e \<in> set (likes ?s). fst e < currentLikeId ?s \<and> l_id (snd e) = fst e \<and>
        l_noteId (snd e) \<in> fst ` set (notes_m ?s)"
      using lok present by (auto simp: likes_ok_def keyset lks)
    ultimately show ?thesis by (simp add: likes_ok_def)
  qed
  moreover have "follows_ok ?s"
    using fok by (simp add: follows_ok_def follows_of_pair_def)
  moreover have "counters_ok ?s"
    unfolding counters_ok_def
  proof
    fix e assume "e \<in> set (notes_m ?s)"
    then consider "e = (?k, ?n)" | "e \<in> set (notes_m s)" "fst e \<noteq> ?k"
      by (auto simp: elems)
    then show "n_downloads (snd e) = download_count (n_id (snd e)) ?s \<and>
               n_likes (snd e) = like_count (n_id (snd e)) ?s"
    proof cases
      case 1
      from cok mem have "n_downloads n = download_count (n_id n) s" and "n_likes n = like_count (n_id n) s"
        by (auto simp: counters_ok_def)
      moreover have "0 \<le> like_count ?k s" by (simp add: like_count_def)
      ultimately show ?thesis using 1 nid lc [of ?k]
        by (simp add: download_count_def)
    next
      case 2
      with nok have "n_id (snd e) \<noteq> ?k" by (auto simp: notes_ok_def)
      moreover from 2 cok have "n_downloads (snd e) = download_count (n_id (snd e)) s"
        and "n_likes (snd e) = like_count (n_id (snd e)) s"
        by (auto simp: counters_ok_def)
      ultimately show ?thesis using lc [of "n_id (snd e)"]
        by (simp add: download_count_def)
    qed
  qed
  ultimately have "store_inv ?s" by (simp add: store_inv_def)
  then show ?thesis by (simp add: toggle_new_effect [OF lk ex])
qed

lemma inv_createOrToggleLike:
  assumes "store_inv s" and "getNoteById (il_noteId il) s = Some n"
  shows "store_inv (snd (createOrToggleLike il now s))"
proof (cases "getLikeByUserAndNote (il_userId il) (il_noteId il) s")
  case None
  with assms show ?thesis by (rule inv_toggle_new)
next
  case (Some l)
  with assms show ?thesis by (rule inv_toggle_existing)
qed

lemma stored_follow:
  assumes "follows_ok s" and "getFollowByIds a b s = Some f"
  shows "(f_id f, f) \<in> set (follows s) \<and> followerId f = a \<and> followedId f = b"
proof -
  from assms(2) have "f \<in> set (map_values (follows s))" and "followerId f = a \<and> followedId f = b"
    by (auto simp: getFollowByIds_def dest: find_SomeD)
  then obtain e where "e \<in> set (follows s)" and "snd e = f"
    by (auto simp: map_values_def)
  with assms(1) have "e = (f_id f, f)"
    by (metis follows_ok_def prod.collapse)
  with \<open>e \<in> set (follows s)\<close> \<open>followerId f = a \<and> followedId f = b\<close> show ?thesis by simp
qed

lemma removeFollow_pair:
  assumes "follows_ok s" and "getFollowByIds a b s = Some f"
  shows "follows_of_pair x y (removeFollow a b s) =
           (if x = a \<and> y = b then [] else follows_of_pair x y s)"
    and "follows_ok (removeFollow a b s)"
proof -
  from stored_follow [OF assms] have fmem: "(f_id f, f) \<in> set (follows s)"
    and fa: "followerId f = a" and fb: "followedId f = b"
    by simp_all
  from assms(1) have fdist: "distinct (map fst (follows s))" by (simp add: follows_ok_def)
  let ?s = "s\<lparr>follows := map_delete (f_id f) (follows s)\<rparr>"
  have rm: "removeFollow a b s = ?s"
    using assms(2) by (simp add: removeFollow_def)
  have cnt: "int (length (filter P (map_values (map_delete (f_id f) (follows s))))) =
             int (length (filter P (map_values (follows s)))) - (if P f then 1 else 0)" for P
    by (rule count_map_delete [OF fdist fmem])
  have sub: "filter P (map_values (map_delete (f_id f) (follows s))) = filter P (map_values (follows s))"
    if "\<not> P f" for P
  proof -
    from fdist fmem have "map_delete (f_id f) (follows s) = filter (\<lambda>e. e \<noteq> (f_id f, f)) (follows s)"
      unfolding map_delete_def
      by (intro filter_cong) (auto simp: eq_key_imp_eq_value)
    then show ?thesis using that
      by (auto simp: map_values_def filter_map o_def intro!: arg_cong [where f = "map snd"] filter_cong)
  qed
  have le1: "length (follows_of_pair x y s) \<le> 1" for x y
    using assms(1) by (simp add: follows_ok_def)
  show pair: "follows_of_pair x y (removeFollow a b s) =
           (if x = a \<and> y = b then [] else follows_of_pair x y s)" for x y
  proof (cases "x = a \<and> y = b")
    case True
    have "int (length (follows_of_pair a b ?s)) = int (length (follows_of_pair a b s)) - 1"
      using cnt [of "\<lambda>f. followerId f = a \<and> followedId f = b"] fa fb
      by (simp add: follows_of_pair_def)
    with le1 [of a b] have "length (follows_of_pair a b ?s) = 0" by linarith
    with True show ?thesis by (simp add: rm)
  next
    case False
    with sub [of "\<lambda>f. followerId f = x \<and> followedId f = y"] fa fb
    show ?thesis by (auto simp: rm follows_of_pair_def)
  qed
  have "length (follows_of_pair x y (removeFollow a b s)) \<le> 1" for x y
    using le1 [of x y] by (simp add: pair)
  moreover have "distinct (map fst (follows ?s))"
    using fdist by (simp add: distinct_map_delete)
  moreover have "\<forall>e \<in> set (follows ?s). fst e < currentFollowId ?s \<and> f_id (snd e) = fst e"
    using assms(1) by (simp add: follows_ok_def set_map_delete)
  ultimately show "follows_ok (removeFollow a b s)"
    by (simp add: follows_ok_def rm)
qed

lemma createFollow_pair:
  assumes "follows_ok s" and "getFollowByIds a b s = None"
  shows "follows_of_pair x y (snd (createFollow \<lparr> if_followerId = a, if_followedId = b \<rparr> now s)) =
           (if x = a \<and> y = b
            then [\<lparr> f_id = currentFollowId s, followerId = a, followedId = b, f_createdAt = now \<rparr>]
            else follows_of_pair x y s)"
    and "follows_ok (snd (createFollow \<lparr> if_followerId = a, if_followedId = b \<rparr> now s))"
proof -
  let ?i = "currentFollowId s"
  let ?f = "\<lparr> f_id = ?i, followerId = a, followedId = b, f_createdAt = now \<rparr>"
  let ?s = "s\<lparr>currentFollowId := ?i + 1, follows := map_set ?i ?f (follows s)\<rparr>"
  have cr: "snd (createFollow \<lparr> if_followerId = a, if_followedId = b \<rparr> now s) = ?s"
    by (simp add: createFollow_def Let_def)
  have fresh: "?i \<notin> fst ` set (follows s)"
    using assms(1) by (auto simp: follows_ok_def)
  have fs: "map_set ?i ?f (follows s) = follows s @ [(?i, ?f)]"
    by (rule map_set_fresh [OF fresh])
  from assms(2) have none: "follows_of_pair a b s = []"
    by (simp add: getFollowByIds_def follows_of_pair_def find_None_count)
  show pair: "follows_of_pair x y (snd (createFollow \<lparr> if_followerId = a, if_followedId = b \<rparr> now s)) =
           (if x = a \<and> y = b then [?f] else follows_of_pair x y s)" for x y
    using none by (auto simp: cr follows_of_pair_def fs map_values_def)
  have "length (follows_of_pair x y ?s) \<le> 1" for x y
    using pair [of x y] assms(1) by (simp add: cr follows_ok_def)
  moreover have "distinct (map fst (follows ?s))"
    using assms(1) fresh by (simp add: follows_ok_def fs)
  moreover have "\<forall>e \<in> set (follows ?s). fst e < currentFollowId ?s \<and> f_id (snd e) = fst e"
    using assms(1) by (auto simp: follows_ok_def fs)
  ultimately show "follows_ok (snd (createFollow \<lparr> if_followerId = a, if_followedId = b \<rparr> now s))"
    by (simp add: follows_ok_def cr)
qed


lemma inv_removeFollow:
  assumes "store_inv s"
  shows "store_inv (removeFollow a b s)"
proof (cases "getFollowByIds a b s")
  case None
  with assms show ?thesis by (simp add: removeFollow_def)
next
  case (Some f)
  from assms have "follows_ok s" by (simp add: store_inv_def)
  then have "follows_ok (removeFollow a b s)"
    using Some by (rule removeFollow_pair(2))
  moreover have "notes_ok (removeFollow a b s) = notes_ok s"
    and "downloads_ok (removeFollow a b s) = downloads_ok s"
    and "likes_ok (removeFollow a b s) = likes_ok s"
    and "counters_ok (removeFollow a b s) = counters_ok s"
    using Some
    by (simp_all add: removeFollow_def notes_ok_def downloads_ok_def likes_ok_def
        counters_ok_def download_count_def like_count_def likes_of_pair_def)
  ultimately show ?thesis using assms by (simp add: store_inv_def)
qed

lemma inv_createFollow:
  assumes "store_inv s" and "getFollowByIds a b s = None"
  shows "store_inv (snd (createFollow \<lparr> if_followerId = a, if_followedId = b \<rparr> now s))"
proof -
  let ?s = "snd (createFollow \<lparr> if_followerId = a, if_followedId = b \<rparr> now s)"
  from assms have "follows_ok s" by (simp add: store_inv_def)
  then have "follows_ok ?s"
    using assms(2) by (rule createFollow_pair(2))
  moreover have "notes_ok ?s = notes_ok s" and "downloads_ok ?s = downloads_ok s"
    and "likes_ok ?s = likes_ok s" and "counters_ok ?s = counters_ok s"
    by (simp_all add: createFollow_def Let_def notes_ok_def downloads_ok_def likes_ok_def
        counters_ok_def download_count_def like_count_def likes_of_pair_def)
  ultimately show ?thesis using assms(1) by (simp add: store_inv_def)
qed

lemma inv_post_notes: "store_inv s \<Longrightarrow> store_inv (snd (post_notes auth b u e now s))"
proof -
  assume inv: "store_inv s"
  have "store_inv s'" if "createNote ins now s = (r, s')" for ins r s'
    using inv_createNote [OF inv, of ins now] that by simp
  with inv show ?thesis
    by (auto simp: post_notes_def Let_def split: option.splits prod.splits sum.splits)
qed

lemma inv_post_comments: "store_inv s \<Longrightarrow> store_inv (snd (post_comments auth k c now s))"
proof -
  assume inv: "store_inv s"
  have "store_inv s'" if "createComment ins now s = (r, s')" for ins r s'
    using inv_createComment [of ins now s] inv that by simp
  with inv show ?thesis
    by (auto simp: post_comments_def split: option.splits prod.splits)
qed

lemma inv_post_like: "store_inv s \<Longrightarrow> store_inv (snd (post_like auth k now s))"
proof -
  assume inv: "store_inv s"
  have "store_inv s'"
    if "createOrToggleLike \<lparr> il_noteId = k, il_userId = u \<rparr> now s = (r, s')"
      and "getNoteById k s = Some n" for u r s' n
    using inv_createOrToggleLike [OF inv, of "\<lparr> il_noteId = k, il_userId = u \<rparr>" n now] that
    by simp
  with inv show ?thesis
    by (auto simp: post_like_def split: option.splits prod.splits sum.splits)
qed

lemma premium_charge_frame:
  assumes "premium_charge u n s = (r, s1)"
  shows "store_inv s1 = store_inv s" and "getNoteById k s1 = getNoteById k s"
proof -
  have a: "store_inv (snd (updateUserCoins i c (snd (updateUserCoins j c' s)))) = store_inv s" for i j c c'
    by (simp add: inv_updateUserCoins)
  have b: "getNoteById k (snd (updateUserCoins i c t)) = getNoteById k t" for i c t
    by (simp add: updateUserCoins_def getNoteById_def Let_def split: option.splits)
  from assms show "store_inv s1 = store_inv s"
    using a inv_updateUserCoins
    by (auto simp: premium_charge_def split: if_splits option.splits prod.splits sum.splits)
       (metis snd_conv)+
  from assms show "getNoteById k s1 = getNoteById k s"
    using b
    by (auto simp: premium_charge_def split: if_splits option.splits prod.splits sum.splits)
       (metis snd_conv)+
qed

lemma inv_post_download: "store_inv s \<Longrightarrow> store_inv (snd (post_download auth k now s))"
proof -
  assume inv: "store_inv s"
  have "store_inv s2"
    if "premium_charge u n s = (r, s1)"
      and "recordDownload \<lparr> id_noteId = k, id_userId = u \<rparr> now s1 = (r', s2)"
      and "getNoteById k s = Some n" for u n r s1 r' s2
  proof -
    from that(1) inv have "store_inv s1" and "getNoteById k s1 = Some n"
      by (simp_all add: premium_charge_frame that(3))
    then show ?thesis
      using inv_recordDownload [of s1 "\<lparr> id_noteId = k, id_userId = u \<rparr>" n now] that(2)
      by simp
  qed
  moreover have "store_inv s1" if "premium_charge u n s = (r, s1)" for u n r s1
    using that inv by (simp add: premium_charge_frame)
  ultimately show ?thesis using inv
    by (auto simp: post_download_def split: option.splits prod.splits sum.splits)
qed

lemma inv_post_follow: "store_inv s \<Longrightarrow> store_inv (snd (post_follow auth k now s))"
proof -
  assume inv: "store_inv s"
  have "store_inv s'"
    if "createFollow \<lparr> if_followerId = a, if_followedId = k \<rparr> now s = (r, s')"
      and "getFollowByIds a k s = None" for a r s'
    using inv_createFollow [OF inv that(2), of now] that(1) by simp
  with inv show ?thesis
    by (auto simp: post_follow_def inv_removeFollow split: option.splits prod.splits)
qed

lemma inv_get_discussion: "store_inv s \<Longrightarrow> store_inv (snd (get_discussion i s))"
proof -
  assume inv: "store_inv s"
  have "store_inv s'" if "updateDiscussionViews i s = (r, s')" for r s'
    using inv_updateDiscussionViews [of i s] inv that by simp
  with inv show ?thesis
    by (auto simp: get_discussion_def split: option.splits prod.splits sum.splits)
qed

lemma inv_post_discussions: "store_inv s \<Longrightarrow> store_inv (snd (post_discussions auth b now s))"
proof -
  assume inv: "store_inv s"
  have "store_inv s'" if "createDiscussion ins now s = (r, s')" for ins r s'
    using inv_createDiscussion [of ins now s] inv that by simp
  with inv show ?thesis
    by (auto simp: post_discussions_def split: option.splits prod.splits)
qed

lemma inv_post_replies: "store_inv s \<Longrightarrow> store_inv (snd (post_replies auth k b now s))"
proof -
  assume inv: "store_inv s"
  have "store_inv s'" if "createDiscussionReply ins now s = (r, s')" for ins r s'
    using inv_createDiscussionReply [of ins now s] inv that by simp
  with inv show ?thesis
    by (auto simp: post_replies_def split: option.splits prod.splits)
qed

lemma inv_handle: "store_inv s \<Longrightarrow> store_inv (snd (handle r now s))"
  by (cases r)
     (simp_all add: inv_post_notes inv_post_comments inv_post_like inv_post_download
        inv_post_follow inv_get_discussion inv_post_discussions inv_post_replies
        inv_createUser split: prod.splits,
      metis inv_createUser snd_conv)

lemma reachable_inv: "reachable s \<Longrightarrow> store_inv s"
  by (induction rule: reachable.induct) (simp_all add: store_inv_init inv_handle)

lemma reachable_run: "reachable s \<Longrightarrow> reachable (run rs s)"
  by (induction rs arbitrary: s) (auto simp: reachable_step)

lemma find_append_hit: "P x \<Longrightarrow> find P (xs @ [x]) \<noteq> None"
  by (induction xs) auto

lemma find_filter_Nil: "filter P xs = [] \<Longrightarrow> find P xs = None"
  by (induction xs) (auto split: if_splits)

lemma toggle_effect_new:
  assumes inv: "store_inv s" and ex: "getNoteById k s = Some n"
    and lk: "getLikeByUserAndNote u k s = None"
  shows "getLikeByUserAndNote u k (snd (createOrToggleLike \<lparr> il_noteId = k, il_userId = u \<rparr> now s)) \<noteq> None"
    and "getNoteById k (snd (createOrToggleLike \<lparr> il_noteId = k, il_userId = u \<rparr> now s)) =
           Some (n\<lparr>n_likes := n_likes n + 1\<rparr>)"
proof -
  let ?il = "\<lparr> il_noteId = k, il_userId = u \<rparr>"
  have eff: "snd (createOrToggleLike ?il now s) =
      s\<lparr>currentLikeId := currentLikeId s + 1,
        likes := map_set (currentLikeId s)
          \<lparr> l_id = currentLikeId s, l_noteId = k, l_userId = u, l_createdAt = now \<rparr> (likes s),
        notes_m := map_set k (n\<lparr>n_likes := max 0 (n_likes n + 1)\<rparr>) (notes_m s)\<rparr>"
    using toggle_new_effect [of ?il s n now] lk ex by simp
  from inv have lok: "likes_ok s" and cok: "counters_ok s" by (simp_all add: store_inv_def)
  have fresh: "currentLikeId s \<notin> fst ` set (likes s)"
    using lok by (auto simp: likes_ok_def)
  from ex have mem: "(k, n) \<in> set (notes_m s)"
    by (simp add: getNoteById_def map_get_in)
  with cok have "n_likes n = like_count (n_id n) s" by (auto simp: counters_ok_def)
  then have nonneg: "0 \<le> n_likes n" by (simp add: like_count_def)
  show "getLikeByUserAndNote u k (snd (createOrToggleLike ?il now s)) \<noteq> None"
    by (simp add: eff getLikeByUserAndNote_def map_set_fresh [OF fresh] map_values_def
        find_append_hit)
  show "getNoteById k (snd (createOrToggleLike ?il now s)) = Some (n\<lparr>n_likes := n_likes n + 1\<rparr>)"
    using nonneg by (simp add: eff getNoteById_def map_get_map_set max_def)
qed

lemma toggle_effect_existing:
  assumes inv: "store_inv s" and ex: "getNoteById k s = Some n"
    and lk: "getLikeByUserAndNote u k s = Some l"
  shows "getLikeByUserAndNote u k (snd (createOrToggleLike \<lparr> il_noteId = k, il_userId = u \<rparr> now s)) = None"
    and "getNoteById k (snd (createOrToggleLike \<lparr> il_noteId = k, il_userId = u \<rparr> now s)) =
           Some (n\<lparr>n_likes := n_likes n - 1\<rparr>)"
proof -
  let ?il = "\<lparr> il_noteId = k, il_userId = u \<rparr>"
  have eff: "snd (createOrToggleLike ?il now s) =
      s\<lparr>likes := map_delete (l_id l) (likes s),
        notes_m := map_set k (n\<lparr>n_likes := max 0 (n_likes n - 1)\<rparr>) (notes_m s)\<rparr>"
    using toggle_existing_effect [of ?il s l n now] lk ex by simp
  from inv have nok: "notes_ok s" and lok: "likes_ok s" and cok: "counters_ok s"
    by (simp_all add: store_inv_def)
  from stored_like [OF lok lk] have lmem: "(l_id l, l) \<in> set (likes s)"
    and lu: "l_userId l = u" and ln: "l_noteId l = k"
    by simp_all
  from lok have ldist: "distinct (map fst (likes s))" by (simp add: likes_ok_def)
  have cnt: "int (length (filter P (map_values (map_delete (l_id l) (likes s))))) =
             int (length (filter P (map_values (likes s)))) - (if P l then 1 else 0)" for P
    by (rule count_map_delete [OF ldist lmem])
  from ex have mem: "(k, n) \<in> set (notes_m s)"
    by (simp add: getNoteById_def map_get_in)
  with nok have nid: "n_id n = k" by (auto simp: notes_ok_def)
  from mem cok nid have "n_likes n = like_count k s" by (auto simp: counters_ok_def)
  moreover have "l \<in> set (filter (\<lambda>l. l_noteId l = k) (map_values (likes s)))"
    using lmem ln by (force simp: map_values_def)
  then have "0 < length (filter (\<lambda>l. l_noteId l = k) (map_values (likes s)))"
    by (rule length_pos_if_in_set)
  then have "1 \<le> like_count k s"
    unfolding like_count_def by linarith
  ultimately have pos: "1 \<le> n_likes n" by simp
  from lok have "length (likes_of_pair u k s) \<le> 1" by (simp add: likes_ok_def)
  then have "length (filter (\<lambda>l. l_userId l = u \<and> l_noteId l = k) (map_values (likes s))) \<le> 1"
    by (simp add: likes_of_pair_def)
  moreover have "int (length (filter (\<lambda>l. l_userId l = u \<and> l_noteId l = k)
          (map_values (map_delete (l_id l) (likes s))))) =
       int (length (filter (\<lambda>l. l_userId l = u \<and> l_noteId l = k) (map_values (likes s)))) - 1"
    using cnt [of "\<lambda>l. l_userId l = u \<and> l_noteId l = k"] lu ln by simp
  ultimately have "length (filter (\<lambda>l. l_userId l = u \<and> l_noteId l = k)
          (map_values (map_delete (l_id l) (likes s)))) = 0"
    by linarith
  then show "getLikeByUserAndNote u k (snd (createOrToggleLike ?il now s)) = None"
    by (simp add: eff getLikeByUserAndNote_def find_filter_Nil)
  show "getNoteById k (snd (createOrToggleLike ?il now s)) = Some (n\<lparr>n_likes := n_likes n - 1\<rparr>)"
    using pos by (simp add: eff getNoteById_def map_get_map_set max_def)
qed

subsection \<open>The example stores are reachable\<close>

lemma reachable_market: "reachable market"
  unfolding market_def by (rule reachable_run [OF reachable_init])

lemma reachable_engaged: "reachable engaged"
  unfolding engaged_def by (rule reachable_run [OF reachable_market])

subsection \<open>Queries under a change of passwords\<close>

lemma followers_set_passwords:
  "getFollowersByUserId i (set_passwords f s) =
     map (\<lambda>u. u\<lparr>password := f u\<rparr>) (getFollowersByUserId i s)"
  by (simp add: getFollowersByUserId_def set_passwords_def map_values_def filter_map o_def Let_def)

lemma following_set_passwords:
  "getFollowingByUserId i (set_passwords f s) =
     map (\<lambda>u. u\<lparr>password := f u\<rparr>) (getFollowingByUserId i s)"
  by (simp add: getFollowingByUserId_def set_passwords_def map_values_def filter_map o_def Let_def)

lemma map_of_set_password:
  "map_of (map (\<lambda>e. (fst e, (snd e)\<lparr>password := f (snd e)\<rparr>)) m) k =
     map_option (\<lambda>u. u\<lparr>password := f u\<rparr>) (map_of m k)"
  by (induction m) auto

lemma get_user_set_passwords: "get_user i (set_passwords f s) = get_user i s"
  by (cases "map_of (users s) i")
     (simp_all add: get_user_def getUser_def map_get_def set_passwords_def map_of_set_password)

subsection \<open>Sorting the notes\<close>

lemma insert_by_insort:
  "insert_by (\<lambda>a b. key b - key a) x ys = insort_key (\<lambda>n. - key n) x (ys :: 'a list)"
  for key :: "'a \<Rightarrow> int"
  by (induction ys) auto

lemma js_sort_sort_key:
  "js_sort (\<lambda>a b. key b - key a) xs = sort_key (\<lambda>n. - key n) xs" for key :: "'a \<Rightarrow> int"
  by (induction xs) (simp_all add: js_sort_def insert_by_insort)

lemma insort_key_tiebreak:
  fixes f :: "'a \<Rightarrow> int" and g :: "'a \<Rightarrow> int"
  assumes "\<forall>y \<in> set ys. g x < g y"
  shows "insort_key (\<lambda>n. (f n, g n)) x ys = insort_key f x ys"
  using assms by (induction ys) (auto simp: less_eq_prod_def)

lemma sort_key_tiebreak:
  fixes f :: "'a \<Rightarrow> int" and g :: "'a \<Rightarrow> int"
  assumes "sorted_wrt (<) (map g xs)"
  shows "sort_key (\<lambda>n. (f n, g n)) xs = sort_key f xs"
  using assms
proof (induction xs)
  case Nil
  then show ?case by simp
next
  case (Cons x xs)
  then have "\<forall>y \<in> set (sort_key f xs). g x < g y" by auto
  with Cons show ?case by (simp add: insort_key_tiebreak)
qed

lemma notes_in_id_order:
  assumes "reachable s"
  shows "sorted_wrt (<) (map n_id (map_values (notes_m s)))"
proof -
  from assms have "notes_ok s" using reachable_inv by (simp add: store_inv_def)
  then have "sorted_wrt (<) (map fst (notes_m s))"
    and "map n_id (map_values (notes_m s)) = map fst (notes_m s)"
    by (auto simp: notes_ok_def map_values_def)
  then show ?thesis by simp
qed

lemma slice0_cases:
  "slice0 n xs = (if 0 \<le> n then take (nat n) xs else take (length xs - nat (- n)) xs)"
proof -
  have "nat (max (int (length xs) + n) 0) = length xs - nat (- n)" if "n < 0"
    using that by linarith
  then show ?thesis by (simp add: slice0_def)
qed

lemma sorted_recent_before:
  assumes "sorted_wrt (<) (map n_id xs)"
  shows "sorted_wrt recent_before (sort_key (\<lambda>n. (- n_createdAt n, n_id n)) xs)"
proof -
  let ?pk = "\<lambda>n. (- n_createdAt n, n_id n)"
  let ?ys = "sort_key ?pk xs"
  from assms have "distinct (map n_id xs)" by (simp add: strict_sorted_iff)
  then have "distinct xs" and "inj_on n_id (set xs)" by (simp_all add: distinct_map)
  then have "distinct ?ys" and "inj_on ?pk (set ?ys)"
    by (auto simp: inj_on_def)
  then have "distinct (map ?pk ?ys)" by (simp add: distinct_map)
  moreover have "sorted (map ?pk ?ys)" by (rule sorted_sort_key)
  ultimately have "sorted_wrt (<) (map ?pk ?ys)" by (simp add: strict_sorted_iff)
  then have "sorted_wrt (\<lambda>a b. ?pk a < ?pk b) ?ys" by (simp add: sorted_wrt_map)
  moreover have "?pk a < ?pk b \<longleftrightarrow> recent_before a b" for a b
    by (auto simp: recent_before_def less_prod_def)
  ultimately show ?thesis by simp
qed

lemma reachable_tied: "reachable tied"
  unfolding tied_def by (rule reachable_run [OF reachable_init])

subsection \<open>Replies and further example stores\<close>

lemma set_insert_by: "set (insert_by cmp x ys) = insert x (set ys)"
  by (induction ys) auto

lemma set_js_sort: "set (js_sort cmp xs) = set xs"
  by (induction xs) (simp_all add: js_sort_def set_insert_by)

lemma reachable_forum: "reachable forum"
  unfolding forum_def by (rule reachable_run [OF reachable_init])

lemma reachable_exploit: "reachable exploit"
  unfolding exploit_def by (rule reachable_run [OF reachable_init])

lemma reachable_newcomer: "reachable newcomer"
  unfolding newcomer_def by (rule reachable_run [OF reachable_init])

lemma reachable_priceless: "reachable priceless"
  unfolding priceless_def by (rule reachable_run [OF reachable_init])

section \<open>The claims\<close>

subsection \<open>C1\<close>

text \<open>
  C1. In every reachable store, each stored note's \<open>downloads\<close> equals the number of
  \<open>Download\<close> records whose \<open>noteId\<close> is the note's id, and its \<open>likes\<close> equals the
  number of \<open>Like\<close> records whose \<open>noteId\<close> is the note's id.
\<close>

theorem counters_consistent:
  assumes "reachable s" and "N \<in> set (map_values (notes_m s))"
  shows "n_downloads N = download_count (n_id N) s \<and> n_likes N = like_count (n_id N) s"
proof -
  from assms(1) have "counters_ok s" using reachable_inv by (simp add: store_inv_def)
  with assms(2) show ?thesis by (auto simp: counters_ok_def map_values_def)
qed

theorem counters_consistent_witness:
  "reachable engaged \<and>
   hd (map_values (notes_m engaged)) \<in> set (map_values (notes_m engaged)) \<and>
   n_downloads (hd (map_values (notes_m engaged))) = download_count 1 engaged \<and>
   n_likes (hd (map_values (notes_m engaged))) = like_count 1 engaged \<and>
   download_count 1 engaged = 1 \<and> like_count 1 engaged = 2"
proof -
  have m: "hd (map_values (notes_m engaged)) \<in> set (map_values (notes_m engaged))"
    by code_simp
  have i: "n_id (hd (map_values (notes_m engaged))) = 1"
    by code_simp
  have c: "download_count 1 engaged = 1 \<and> like_count 1 engaged = 2"
    by code_simp
  from counters_consistent [OF reachable_engaged m] i c reachable_engaged m
  show ?thesis by simp
qed

subsection \<open>C2\<close>

text \<open>
  C2, as stated: for every buyer, seller and price \<open>price \<ge> 0\<close>, a premium download
  either fails for lack of coins or takes exactly the price from the buyer and gives
  exactly the price to another seller. It fails where a balance is not a number: a buyer
  whose balance is \<open>NaN\<close> downloads a note priced 5, the answer is 200, the buyer's
  balance is still \<open>NaN\<close> and the seller's goes from 10 to 15. It also fails where a balance
  leaves the safe integers: a seller at \<open>2^53\<close> who is paid 5 ends at \<open>2^53 + 4\<close>.
\<close>

theorem premium_charge_counterexample:
  "reachable priceless \<and>
   map_option coins (getUser 2 priceless) = Some NaN \<and>
   map_option coins (getUser 1 priceless) = Some (Num 10) \<and>
   map_option coinPrice (getNoteById 2 priceless) = Some (Val 5) \<and>
   map_option n_userId (getNoteById 2 priceless) = Some 1 \<and>
   fst (post_download (Some 2) 2 9 priceless) =
     Json 200 (DownloadOk ''/api/files/01-a.pdf'' ''a.pdf'') \<and>
   map_option coins (getUser 2 (snd (post_download (Some 2) 2 9 priceless))) = Some NaN \<and>
   map_option coins (getUser 1 (snd (post_download (Some 2) 2 9 priceless))) = Some (Num 15) \<and>
   map_option coins (getUser 1 rich) = Some (Num 9007199254740992) \<and>
   map_option coins (getUser 2 rich) = Some (Num 10) \<and>
   map_option coinPrice (getNoteById 1 rich) = Some (Val 5) \<and>
   map_option n_userId (getNoteById 1 rich) = Some 1 \<and>
   fst (post_download (Some 2) 1 9 rich) =
     Json 200 (DownloadOk ''/api/files/00-a.pdf'' ''a.pdf'') \<and>
   map_option coins (getUser 2 (snd (post_download (Some 2) 1 9 rich))) = Some (Num 5) \<and>
   map_option coins (getUser 1 (snd (post_download (Some 2) 1 9 rich))) =
     Some (Num 9007199254740996)"
proof -
  have a: "map_option coins (getUser 2 priceless) = Some NaN" by code_simp
  have b: "map_option coins (getUser 1 priceless) = Some (Num 10)" by code_simp
  have c: "map_option coinPrice (getNoteById 2 priceless) = Some (Val 5)" by code_simp
  have d: "map_option n_userId (getNoteById 2 priceless) = Some 1" by code_simp
  have e: "fst (post_download (Some 2) 2 9 priceless) =
     Json 200 (DownloadOk ''/api/files/01-a.pdf'' ''a.pdf'')" by code_simp
  have f: "map_option coins (getUser 2 (snd (post_download (Some 2) 2 9 priceless))) = Some NaN"
    by code_simp
  have g: "map_option coins (getUser 1 (snd (post_download (Some 2) 2 9 priceless))) =
     Some (Num 15)" by code_simp
  have h: "map_option coins (getUser 1 rich) = Some (Num 9007199254740992)" by code_simp
  have i: "map_option coins (getUser 2 rich) = Some (Num 10)" by code_simp
  have j: "map_option coinPrice (getNoteById 1 rich) = Some (Val 5)" by code_simp
  have k: "map_option n_userId (getNoteById 1 rich) = Some 1" by code_simp
  have l: "fst (post_download (Some 2) 1 9 rich) =
     Json 200 (DownloadOk ''/api/files/00-a.pdf'' ''a.pdf'')" by code_simp
  have m: "map_option coins (getUser 2 (snd (post_download (Some 2) 1 9 rich))) = Some (Num 5)"
    by code_simp
  have n: "map_option coins (getUser 1 (snd (post_download (Some 2) 1 9 rich))) =
     Some (Num 9007199254740996)" by code_simp
  from reachable_priceless a b c d e f g h i j k l m n show ?thesis by blast
qed

text \<open>
  C2, amended. The download of a premium note priced \<open>price \<ge> 0\<close>, by a stored buyer
  from a stored seller whose balances are numbers, the buyer's a safe integer and the
  seller's plus the price a safe integer: when the buyer's balance is below the price the
  handler answers 403 with \<open>required = price\<close> and \<open>available\<close> the balance, and the store
  is unchanged; otherwise the buyer's balance goes down by exactly the price and, when the
  seller is another user, the seller's balance goes up by exactly the price, so that the
  two balances together are unchanged. No other user's record changes.
\<close>

theorem premium_download_charge:
  assumes "getNoteById noteId s = Some n" and "truthy (isPremium n)"
    and "coinPrice n = Val price" and "0 \<le> price" and "n_userId n = seller"
    and "getUser buyer s = Some ub" and "coins ub = Num b"
    and "getUser seller s = Some us" and "coins us = Num c"
    and "safe_integer b" and "safe_integer (c + price)"
  shows "if b < price
         then post_download (Some buyer) noteId now s =
                (Json 403 (InsufficientCoins (Val price) (Num b)), s)
         else (let s' = snd (post_download (Some buyer) noteId now s)
               in fst (post_download (Some buyer) noteId now s) =
                    Json 200 (DownloadOk (fileUrl n) (fileName n)) \<and>
                  map_option coins (getUser buyer s') = Some (Num (b - price)) \<and>
                  (seller \<noteq> buyer \<longrightarrow>
                     map_option coins (getUser seller s') = Some (Num (c + price)) \<and>
                     (\<exists>b' c'. map_option coins (getUser buyer s') = Some (Num b') \<and>
                        map_option coins (getUser seller s') = Some (Num c') \<and>
                        b' + c' = b + c)) \<and>
                  (\<forall>u. u \<noteq> buyer \<and> u \<noteq> seller \<longrightarrow> getUser u s' = getUser u s))"
proof -
  have debit: "round_double (b - price) = Num (b - price)" if "\<not> b < price"
  proof -
    from that assms(4,10) have "safe_integer (b - price)" by (simp add: safe_integer_def)
    then show ?thesis by (rule round_double_safe)
  qed
  have credit: "round_double (c + price) = Num (c + price)"
    using assms(11) by (rule round_double_safe)
  from assms(1-9) show ?thesis
    apply (simp add: post_download_def premium_charge_def Let_def)
    apply (auto simp: updateUserCoins_def recordDownload_def updateNoteDownloads_def
        getUser_def getNoteById_def map_get_map_set Let_def debit credit
        split: option.splits prod.splits sum.splits)
    done
qed

theorem premium_download_charge_witness:
  "getNoteById 1 market = Some (hd (map_values (notes_m market))) \<and>
   map_option coins (getUser 2 market) = Some (Num 10) \<and>
   map_option coins (getUser 1 market) = Some (Num 10) \<and>
   map_option coins (getUser 3 market) = Some (Num 0) \<and>
   safe_integer 10 \<and> safe_integer 0 \<and> safe_integer (10 + 5) \<and>
   fst (post_download (Some 2) 1 9 market) =
     Json 200 (DownloadOk ''/api/files/00-a.pdf'' ''a.pdf'') \<and>
   map_option coins (getUser 2 (snd (post_download (Some 2) 1 9 market))) = Some (Num 5) \<and>
   map_option coins (getUser 1 (snd (post_download (Some 2) 1 9 market))) = Some (Num 15) \<and>
   post_download (Some 3) 1 9 market = (Json 403 (InsufficientCoins (Val 5) (Num 0)), market)"
proof -
  let ?n = "hd (map_values (notes_m market))"
  let ?u1 = "hd (map_values (users market))"
  let ?u2 = "hd (tl (map_values (users market)))"
  let ?u3 = "hd (tl (tl (map_values (users market))))"
  have n: "getNoteById 1 market = Some ?n" by code_simp
  have p: "truthy (isPremium ?n)" by code_simp
  have c: "coinPrice ?n = Val 5" by code_simp
  have o: "n_userId ?n = 1" by code_simp
  have u1: "getUser 1 market = Some ?u1" by code_simp
  have u2: "getUser 2 market = Some ?u2" by code_simp
  have u3: "getUser 3 market = Some ?u3" by code_simp
  have c1: "coins ?u1 = Num 10" by code_simp
  have c2: "coins ?u2 = Num 10" by code_simp
  have c3: "coins ?u3 = Num 0" by code_simp
  have f: "fileUrl ?n = ''/api/files/00-a.pdf'' \<and> fileName ?n = ''a.pdf''" by code_simp
  have pos: "(0::int) \<le> 5" by simp
  have s10: "safe_integer 10" and s0: "safe_integer 0" and s15: "safe_integer (10 + 5)"
    by (simp_all add: safe_integer_def)
  from premium_download_charge [OF n p c pos o u2 c2 u1 c1 s10 s15, of 9]
    premium_download_charge [OF n p c pos o u3 c3 u1 c1 s0 s15, of 9]
    n u1 u2 u3 c1 c2 c3 f s10 s0 s15
  show ?thesis by (simp add: Let_def)
qed

subsection \<open>C3\<close>

text \<open>
  C3. The claim is that no reachable store holds a negative balance. The code reaches
  one: the upload handler accepts a negative \<open>coinPrice\<close>, the download handler's check
  \<open>user.coins < note.coinPrice\<close> then lets any buyer through, credits the buyer 100 and
  debits the owner 100, whose balance of 10 becomes -90.
\<close>

theorem negative_balance_reached:
  "reachable exploit \<and>
   map_option coins (getUser 1 exploit) = Some (Num (- 90)) \<and>
   map_option coins (getUser 2 exploit) = Some (Num 100)"
proof -
  have "map_option coins (getUser 1 exploit) = Some (Num (- 90))" by code_simp
  moreover have "map_option coins (getUser 2 exploit) = Some (Num 100)" by code_simp
  ultimately show ?thesis using reachable_exploit by blast
qed

subsection \<open>C4\<close>

text \<open>
  C4. In a reachable store, for a note that exists, two calls of \<open>createOrToggleLike\<close>
  in a row for the same note and user restore whether a \<open>Like\<close> of the pair exists, and
  restore the note's \<open>likes\<close> counter.
\<close>

theorem toggle_like_twice:
  assumes "reachable s" and "getNoteById k s = Some n"
  shows "let s1 = snd (createOrToggleLike \<lparr> il_noteId = k, il_userId = u \<rparr> t1 s);
             s2 = snd (createOrToggleLike \<lparr> il_noteId = k, il_userId = u \<rparr> t2 s1)
         in (getLikeByUserAndNote u k s2 = None \<longleftrightarrow> getLikeByUserAndNote u k s = None) \<and>
            map_option n_likes (getNoteById k s2) = Some (n_likes n)"
proof -
  let ?il = "\<lparr> il_noteId = k, il_userId = u \<rparr>"
  let ?s1 = "snd (createOrToggleLike ?il t1 s)"
  from assms(1) have inv: "store_inv s" by (rule reachable_inv)
  then have inv1: "store_inv ?s1"
    using inv_createOrToggleLike [of s ?il n t1] assms(2) by simp
  show ?thesis
  proof (cases "getLikeByUserAndNote u k s")
    case None
    note a = toggle_effect_new [OF inv assms(2) None, of t1]
    from a(1) obtain l where l: "getLikeByUserAndNote u k ?s1 = Some l" by auto
    note b = toggle_effect_existing [OF inv1 a(2) l, of t2]
    from None b show ?thesis by (simp add: Let_def)
  next
    case (Some l)
    note a = toggle_effect_existing [OF inv assms(2) Some, of t1]
    note b = toggle_effect_new [OF inv1 a(2) a(1), of t2]
    from Some b show ?thesis by (simp add: Let_def)
  qed
qed

theorem toggle_like_twice_witness:
  "reachable engaged \<and>
   getNoteById 1 engaged = Some (hd (map_values (notes_m engaged))) \<and>
   (let s1 = snd (createOrToggleLike \<lparr> il_noteId = 1, il_userId = 2 \<rparr> 20 engaged);
        s2 = snd (createOrToggleLike \<lparr> il_noteId = 1, il_userId = 2 \<rparr> 21 s1)
    in (getLikeByUserAndNote 2 1 s2 = None \<longleftrightarrow> getLikeByUserAndNote 2 1 engaged = None) \<and>
       map_option n_likes (getNoteById 1 s2) = Some 2)"
proof -
  have n: "getNoteById 1 engaged = Some (hd (map_values (notes_m engaged)))"
    by code_simp
  have l: "n_likes (hd (map_values (notes_m engaged))) = 2"
    by code_simp
  from toggle_like_twice [OF reachable_engaged n, of 2 20 21] l reachable_engaged n
  show ?thesis by simp
qed

subsection \<open>C5\<close>

text \<open>
  C5, as stated: a reply whose \<open>parentReplyId\<close> names no stored reply, or a reply of
  another discussion, is refused and not stored. It fails: in a store where reply 1
  belongs to discussion 2 and no reply 99 exists, a reply to discussion 1 with parent 1,
  or with parent 99, is answered 201 and is then among the replies of discussion 1.
\<close>

theorem reply_parent_counterexample:
  "reachable forum \<and> getDiscussionById 1 forum \<noteq> None \<and>
   map (\<lambda>r. (r_id r, r_discussionId r)) (map_values (discussionReplies forum)) = [(1, 2)] \<and>
   fst (post_replies (Some 1) 1 (sample_reply (Given 1)) 5 forum) =
     Json 201 (ReplyJ \<lparr> r_id = 2, r_discussionId = 1, r_userId = 1, r_content = ''hi'',
                        parentReplyId = Val 1, attachmentUrl = Undefined,
                        attachmentType = Undefined, r_likes = 0, r_createdAt = 5,
                        r_updatedAt = 5 \<rparr>) \<and>
   map parentReplyId (getDiscussionRepliesByDiscussionId 1
     (snd (post_replies (Some 1) 1 (sample_reply (Given 1)) 5 forum))) = [Val 1] \<and>
   fst (post_replies (Some 1) 1 (sample_reply (Given 99)) 5 forum) =
     Json 201 (ReplyJ \<lparr> r_id = 2, r_discussionId = 1, r_userId = 1, r_content = ''hi'',
                        parentReplyId = Val 99, attachmentUrl = Undefined,
                        attachmentType = Undefined, r_likes = 0, r_createdAt = 5,
                        r_updatedAt = 5 \<rparr>) \<and>
   map parentReplyId (getDiscussionRepliesByDiscussionId 1
     (snd (post_replies (Some 1) 1 (sample_reply (Given 99)) 5 forum))) = [Val 99]"
proof -
  have a: "getDiscussionById 1 forum \<noteq> None" by code_simp
  have b: "map (\<lambda>r. (r_id r, r_discussionId r)) (map_values (discussionReplies forum)) = [(1, 2)]"
    by code_simp
  have c: "fst (post_replies (Some 1) 1 (sample_reply (Given 1)) 5 forum) =
     Json 201 (ReplyJ \<lparr> r_id = 2, r_discussionId = 1, r_userId = 1, r_content = ''hi'',
                        parentReplyId = Val 1, attachmentUrl = Undefined,
                        attachmentType = Undefined, r_likes = 0, r_createdAt = 5,
                        r_updatedAt = 5 \<rparr>)"
    by code_simp
  have d: "map parentReplyId (getDiscussionRepliesByDiscussionId 1
     (snd (post_replies (Some 1) 1 (sample_reply (Given 1)) 5 forum))) = [Val 1]"
    by code_simp
  have e: "fst (post_replies (Some 1) 1 (sample_reply (Given 99)) 5 forum) =
     Json 201 (ReplyJ \<lparr> r_id = 2, r_discussionId = 1, r_userId = 1, r_content = ''hi'',
                        parentReplyId = Val 99, attachmentUrl = Undefined,
                        attachmentType = Undefined, r_likes = 0, r_createdAt = 5,
                        r_updatedAt = 5 \<rparr>)"
    by code_simp
  have f: "map parentReplyId (getDiscussionRepliesByDiscussionId 1
     (snd (post_replies (Some 1) 1 (sample_reply (Given 99)) 5 forum))) = [Val 99]"
    by code_simp
  from reachable_forum a b c d e f show ?thesis by blast
qed

text \<open>
  C5, amended. A reply request by an authenticated user on a stored discussion \<open>d\<close>,
  with a content and a \<open>parentReplyId\<close> \<open>p\<close> (and attachments of the right type, if
  any): when \<open>p\<close> lies in the range of a 32-bit integer the request is answered 201
  whatever else \<open>p\<close> is, the reply is stored under the next reply id with
  \<open>parentReplyId = p\<close> and is among the replies of \<open>d\<close>; when \<open>p\<close> lies outside that
  range the request is answered 400 and the store is unchanged. The replies of \<open>d\<close> are
  the stored replies whose \<open>discussionId\<close> is \<open>d\<close>; nothing relates their parents to
  \<open>d\<close>.
\<close>

theorem reply_parent_unchecked:
  assumes "getDiscussionById d s \<noteq> None" and "rb_content b = Given c"
    and "rb_parentReplyId b = Given p"
    and "rb_attachmentUrl b \<noteq> IllTyped" and "rb_attachmentType b \<noteq> IllTyped"
  shows "(int32 p \<longrightarrow>
           (\<exists>r. fst (post_replies (Some u) d b now s) = Json 201 (ReplyJ r) \<and>
              r_id r = currentDiscussionReplyId s \<and> r_discussionId r = d \<and>
              parentReplyId r = Val p \<and>
              map_get (discussionReplies (snd (post_replies (Some u) d b now s)))
                (currentDiscussionReplyId s) = Some r \<and>
              r \<in> set (getDiscussionRepliesByDiscussionId d
                         (snd (post_replies (Some u) d b now s))))) \<and>
         (\<not> int32 p \<longrightarrow>
           post_replies (Some u) d b now s = (Json 400 (Invalid ''Invalid reply data''), s)) \<and>
         set (getDiscussionRepliesByDiscussionId d s) =
           {r \<in> set (map_values (discussionReplies s)). r_discussionId r = d}"
proof (intro conjI impI)
  assume range: "int32 p"
  from assms(4) obtain au where au: "nullish (rb_attachmentUrl b) = Some au"
    by (cases "rb_attachmentUrl b") auto
  from assms(5) obtain at where at: "nullish (rb_attachmentType b) = Some at"
    by (cases "rb_attachmentType b") auto
  let ?r = "\<lparr> r_id = currentDiscussionReplyId s, r_discussionId = d, r_userId = u,
              r_content = c, parentReplyId = Val p, attachmentUrl = au, attachmentType = at,
              r_likes = 0, r_createdAt = now, r_updatedAt = now \<rparr>"
  let ?s = "s\<lparr>currentDiscussionReplyId := currentDiscussionReplyId s + 1,
              discussionReplies := map_set (currentDiscussionReplyId s) ?r (discussionReplies s)\<rparr>"
  have parse: "insertDiscussionReplySchema_parse b d u =
      Some \<lparr> ir_discussionId = d, ir_userId = u, ir_content = c, ir_parentReplyId = Val p,
             ir_attachmentUrl = au, ir_attachmentType = at \<rparr>"
    using assms(2,3) au at range by (simp add: insertDiscussionReplySchema_parse_def)
  have run: "post_replies (Some u) d b now s = (Json 201 (ReplyJ ?r), ?s)"
    using assms(1) parse
    by (auto simp: post_replies_def createDiscussionReply_def Let_def)
  have stored: "map_get (discussionReplies ?s) (currentDiscussionReplyId s) = Some ?r"
    by (simp add: map_get_map_set)
  then have "(currentDiscussionReplyId s, ?r) \<in> set (discussionReplies ?s)"
    by (rule map_get_in)
  then have "?r \<in> set (map_values (discussionReplies ?s))"
    unfolding map_values_def by (metis image_eqI list.set_map snd_conv)
  then have "?r \<in> set (getDiscussionRepliesByDiscussionId d ?s)"
    by (simp add: getDiscussionRepliesByDiscussionId_def set_js_sort)
  with stored show "\<exists>r. fst (post_replies (Some u) d b now s) = Json 201 (ReplyJ r) \<and>
              r_id r = currentDiscussionReplyId s \<and> r_discussionId r = d \<and>
              parentReplyId r = Val p \<and>
              map_get (discussionReplies (snd (post_replies (Some u) d b now s)))
                (currentDiscussionReplyId s) = Some r \<and>
              r \<in> set (getDiscussionRepliesByDiscussionId d
                         (snd (post_replies (Some u) d b now s)))"
    unfolding run by (intro exI [of _ ?r]) simp
next
  assume "\<not> int32 p"
  then have "insertDiscussionReplySchema_parse b d u = None"
    using assms(2,3) by (simp add: insertDiscussionReplySchema_parse_def)
  with assms(1) show "post_replies (Some u) d b now s =
      (Json 400 (Invalid ''Invalid reply data''), s)"
    by (auto simp: post_replies_def)
next
  show "set (getDiscussionRepliesByDiscussionId d s) =
           {r \<in> set (map_values (discussionReplies s)). r_discussionId r = d}"
    by (auto simp: getDiscussionRepliesByDiscussionId_def set_js_sort)
qed

theorem reply_parent_unchecked_witness:
  "getDiscussionById 1 forum \<noteq> None \<and>
   rb_parentReplyId (sample_reply (Given 99)) = Given 99 \<and> int32 99 \<and>
   map_get (discussionReplies forum) 99 = None \<and>
   (\<exists>r. fst (post_replies (Some 1) 1 (sample_reply (Given 99)) 5 forum) = Json 201 (ReplyJ r) \<and>
        parentReplyId r = Val 99 \<and>
        r \<in> set (getDiscussionRepliesByDiscussionId 1
                   (snd (post_replies (Some 1) 1 (sample_reply (Given 99)) 5 forum)))) \<and>
   rb_parentReplyId (sample_reply (Given 2147483648)) = Given 2147483648 \<and>
   \<not> int32 2147483648 \<and>
   post_replies (Some 1) 1 (sample_reply (Given 2147483648)) 5 forum =
     (Json 400 (Invalid ''Invalid reply data''), forum)"
proof -
  have d: "getDiscussionById 1 forum \<noteq> None" by code_simp
  have c: "rb_content (sample_reply (Given 99)) = Given ''hi''" by code_simp
  have p: "rb_parentReplyId (sample_reply (Given 99)) = Given 99" by code_simp
  have u: "rb_attachmentUrl (sample_reply (Given 99)) \<noteq> IllTyped" by code_simp
  have t: "rb_attachmentType (sample_reply (Given 99)) \<noteq> IllTyped" by code_simp
  have n: "map_get (discussionReplies forum) 99 = None" by code_simp
  have i: "int32 99" by (simp add: int32_def)
  have c': "rb_content (sample_reply (Given 2147483648)) = Given ''hi''" by code_simp
  have p': "rb_parentReplyId (sample_reply (Given 2147483648)) = Given 2147483648" by code_simp
  have u': "rb_attachmentUrl (sample_reply (Given 2147483648)) \<noteq> IllTyped" by code_simp
  have t': "rb_attachmentType (sample_reply (Given 2147483648)) \<noteq> IllTyped" by code_simp
  have o: "\<not> int32 2147483648" by (simp add: int32_def)
  from reply_parent_unchecked [OF d c p u t, of 1 5]
    reply_parent_unchecked [OF d c' p' u' t', of 1 5] d p n i p' o
  show ?thesis by blast
qed

subsection \<open>C6\<close>

text \<open>
  C6. The follow handler rejects a user following themselves, whatever the store, and
  leaves the store unchanged. For two different users, the followed one stored, in a
  reachable store: when a \<open>Follow\<close> of the ordered pair exists the handler removes it and
  answers \<open>following = false\<close>, otherwise it creates one and answers \<open>following = true\<close>;
  the \<open>Follow\<close> records of every other pair stay as they are. A reachable store holds at
  most one \<open>Follow\<close> per ordered pair.
\<close>

theorem follow_toggle:
  "post_follow (Some a) a now s = (Json 400 (Message ''Cannot follow yourself''), s) \<and>
   (reachable s \<longrightarrow> length (follows_of_pair x y s) \<le> 1) \<and>
   (reachable s \<and> a \<noteq> b \<and> getUser b s \<noteq> None \<longrightarrow>
      (let r = fst (post_follow (Some a) b now s); s' = snd (post_follow (Some a) b now s)
       in (if getFollowByIds a b s \<noteq> None
           then r = Json 200 (Following False) \<and> follows_of_pair a b s' = []
           else r = Json 200 (Following True) \<and> length (follows_of_pair a b s') = 1) \<and>
          (\<forall>x y. (x, y) \<noteq> (a, b) \<longrightarrow> follows_of_pair x y s' = follows_of_pair x y s)))"
proof (intro conjI impI)
  show "post_follow (Some a) a now s = (Json 400 (Message ''Cannot follow yourself''), s)"
    by (simp add: post_follow_def)
next
  assume "reachable s"
  then have "follows_ok s" using reachable_inv by (simp add: store_inv_def)
  then show "length (follows_of_pair x y s) \<le> 1" by (simp add: follows_ok_def)
next
  assume h: "reachable s \<and> a \<noteq> b \<and> getUser b s \<noteq> None"
  then have fok: "follows_ok s" using reachable_inv by (simp add: store_inv_def)
  from h obtain ub where ub: "getUser b s = Some ub" by auto
  show "let r = fst (post_follow (Some a) b now s); s' = snd (post_follow (Some a) b now s)
       in (if getFollowByIds a b s \<noteq> None
           then r = Json 200 (Following False) \<and> follows_of_pair a b s' = []
           else r = Json 200 (Following True) \<and> length (follows_of_pair a b s') = 1) \<and>
          (\<forall>x y. (x, y) \<noteq> (a, b) \<longrightarrow> follows_of_pair x y s' = follows_of_pair x y s)"
  proof (cases "getFollowByIds a b s")
    case None
    have "post_follow (Some a) b now s =
        (Json 200 (Following True),
         snd (createFollow \<lparr> if_followerId = a, if_followedId = b \<rparr> now s))"
      using h ub None by (simp add: post_follow_def split: prod.splits)
    with None createFollow_pair(1) [OF fok None, of _ _ now] show ?thesis
      by (simp add: Let_def)
  next
    case (Some f)
    have "post_follow (Some a) b now s = (Json 200 (Following False), removeFollow a b s)"
      using h ub Some by (simp add: post_follow_def)
    with Some removeFollow_pair(1) [OF fok Some] show ?thesis
      by (simp add: Let_def)
  qed
qed

theorem follow_toggle_witness:
  "reachable engaged \<and> getUser 1 engaged \<noteq> None \<and> getUser 2 engaged \<noteq> None \<and>
   post_follow (Some 2) 2 30 engaged = (Json 400 (Message ''Cannot follow yourself''), engaged) \<and>
   getFollowByIds 2 1 engaged \<noteq> None \<and>
   fst (post_follow (Some 2) 1 30 engaged) = Json 200 (Following False) \<and>
   follows_of_pair 2 1 (snd (post_follow (Some 2) 1 30 engaged)) = [] \<and>
   getFollowByIds 1 2 engaged = None \<and>
   fst (post_follow (Some 1) 2 30 engaged) = Json 200 (Following True) \<and>
   length (follows_of_pair 1 2 (snd (post_follow (Some 1) 2 30 engaged))) = 1 \<and>
   length (follows_of_pair 2 1 engaged) \<le> 1"
proof -
  have u1: "getUser 1 engaged \<noteq> None" by code_simp
  have u2: "getUser 2 engaged \<noteq> None" by code_simp
  have f21: "getFollowByIds 2 1 engaged \<noteq> None" by code_simp
  have f12: "getFollowByIds 1 2 engaged = None" by code_simp
  have d: "(2::int) \<noteq> 1" "(1::int) \<noteq> 2" by simp_all
  from follow_toggle [where a = 2 and b = 1 and s = engaged and now = 30 and x = 2 and y = 1]
    follow_toggle [where a = 1 and b = 2 and s = engaged and now = 30 and x = 2 and y = 1]
    reachable_engaged u1 u2 f21 f12 d
  show ?thesis by (simp add: Let_def)
qed

subsection \<open>C7\<close>

text \<open>
  C7, as stated: the recent notes are ordered by \<open>createdAt\<close> descending, notes of equal
  \<open>createdAt\<close> by id descending. It fails on a store with two notes of the same
  \<open>createdAt\<close>: the code returns them in the order of their ids.
\<close>

theorem recent_ties_counterexample:
  "reachable tied \<and> map n_createdAt (map_values (notes_m tied)) = [3, 3, 4] \<and>
   map n_id (getRecentNotes 3 tied) = [3, 1, 2] \<and>
   map n_id (recent_spec 3 tied) = [3, 2, 1] \<and>
   getRecentNotes 3 tied \<noteq> recent_spec 3 tied"
proof -
  have a: "map n_createdAt (map_values (notes_m tied)) = [3, 3, 4]" by code_simp
  have b: "map n_id (getRecentNotes 3 tied) = [3, 1, 2]" by code_simp
  have c: "map n_id (recent_spec 3 tied) = [3, 2, 1]" by code_simp
  from b c have "getRecentNotes 3 tied \<noteq> recent_spec 3 tied" by auto
  with a b c reachable_tied show ?thesis by simp
qed

text \<open>
  C7, amended. In every reachable store and for every limit, \<open>getRecentNotes\<close> returns
  the notes sorted descending by \<open>createdAt\<close>, notes of equal \<open>createdAt\<close> ordered by id
  ascending (the order in which they were stored), truncated to the first \<open>limit\<close> notes
  when \<open>limit \<ge> 0\<close> and to all but the last \<open>- limit\<close> notes when \<open>limit < 0\<close>.
\<close>

theorem recent_notes_order:
  assumes "reachable s"
  shows "getRecentNotes limit s = recent_by_id_ascending limit s \<and>
         sorted_wrt recent_before (getRecentNotes limit s)"
proof -
  let ?xs = "map_values (notes_m s)"
  have ord: "sorted_wrt (<) (map n_id ?xs)" by (rule notes_in_id_order [OF assms])
  have "js_sort (\<lambda>a b. n_createdAt b - n_createdAt a) ?xs = sort_key (\<lambda>n. - n_createdAt n) ?xs"
    by (rule js_sort_sort_key)
  also have "\<dots> = sort_key (\<lambda>n. (- n_createdAt n, n_id n)) ?xs"
    by (rule sort_key_tiebreak [OF ord, symmetric])
  finally have eq: "getRecentNotes limit s =
      slice0 limit (sort_key (\<lambda>n. (- n_createdAt n, n_id n)) ?xs)"
    by (simp add: getRecentNotes_def)
  then have "getRecentNotes limit s = recent_by_id_ascending limit s"
    by (simp add: recent_by_id_ascending_def slice0_cases Let_def)
  moreover have "sorted_wrt recent_before (getRecentNotes limit s)"
    unfolding eq slice0_def by (intro sorted_wrt_take sorted_recent_before ord)
  ultimately show ?thesis by simp
qed

theorem recent_notes_order_witness:
  "reachable tied \<and> map n_id (getRecentNotes 3 tied) = [3, 1, 2] \<and>
   getRecentNotes 3 tied = recent_by_id_ascending 3 tied \<and>
   sorted_wrt recent_before (getRecentNotes 3 tied) \<and>
   map n_id (getRecentNotes (- 1) tied) = [3, 1] \<and>
   getRecentNotes (- 1) tied = recent_by_id_ascending (- 1) tied"
proof -
  have "map n_id (getRecentNotes 3 tied) = [3, 1, 2]" by code_simp
  moreover have "map n_id (getRecentNotes (- 1) tied) = [3, 1]" by code_simp
  ultimately show ?thesis
    using recent_notes_order [OF reachable_tied, of 3]
      recent_notes_order [OF reachable_tied, of "- 1"] reachable_tied
    by blast
qed

subsection \<open>C8\<close>

text \<open>
  C8. The claim is that an upload with a negative \<open>coinPrice\<close> is rejected and stores
  nothing. The code accepts it: the handler answers 201, the note is stored with
  \<open>coinPrice = -100\<close>, and the uploader receives the 10 coins of a premium upload.
\<close>

theorem negative_price_accepted:
  "reachable newcomer \<and>
   map_option coins (getUser 1 newcomer) = Some (Num 0) \<and>
   fst (post_notes (Some 1) (sample_upload (Given True) (Given (- 100))) ''00'' ''pdf'' 3 newcomer) =
     Json 201 (NoteJ \<lparr> n_id = 1, title = ''T'', n_description = ''D'', n_userId = 1,
                       n_category = ''C'', fileUrl = ''/api/files/00-a.pdf'',
                       fileName = ''a.pdf'', fileSize = 10, fileType = ''pdf'',
                       isPremium = Val True, coinPrice = Val (- 100),
                       previewPages = Undefined, n_downloads = 0, n_likes = 0,
                       tags = Undefined, n_createdAt = 3 \<rparr>) \<and>
   map_option coinPrice (getNoteById 1
     (snd (post_notes (Some 1) (sample_upload (Given True) (Given (- 100))) ''00'' ''pdf'' 3 newcomer))) =
     Some (Val (- 100)) \<and>
   map_option coins (getUser 1
     (snd (post_notes (Some 1) (sample_upload (Given True) (Given (- 100))) ''00'' ''pdf'' 3 newcomer))) =
     Some (Num 10)"
proof -
  let ?r = "post_notes (Some 1) (sample_upload (Given True) (Given (- 100))) ''00'' ''pdf'' 3 newcomer"
  have a: "map_option coins (getUser 1 newcomer) = Some (Num 0)" by code_simp
  have b: "fst ?r =
     Json 201 (NoteJ \<lparr> n_id = 1, title = ''T'', n_description = ''D'', n_userId = 1,
                       n_category = ''C'', fileUrl = ''/api/files/00-a.pdf'',
                       fileName = ''a.pdf'', fileSize = 10, fileType = ''pdf'',
                       isPremium = Val True, coinPrice = Val (- 100),
                       previewPages = Undefined, n_downloads = 0, n_likes = 0,
                       tags = Undefined, n_createdAt = 3 \<rparr>)"
    by code_simp
  have c: "map_option coinPrice (getNoteById 1 (snd ?r)) = Some (Val (- 100))" by code_simp
  have d: "map_option coins (getUser 1 (snd ?r)) = Some (Num 10)" by code_simp
  from reachable_newcomer a b c d show ?thesis by blast
qed

subsection \<open>C9\<close>

text \<open>
  C9. The followers and following handlers answer with the stored \<open>User\<close> records
  themselves, password included: they are the stored users whose id occurs among the
  follower (followed) ids. Replacing the stored passwords replaces the passwords in their
  answers, while the answer of the single-user handler, which drops the password, stays
  the same.
\<close>

theorem social_lists_expose_passwords:
  "get_followers i s = Json 200 (UsersJ (getFollowersByUserId i s)) \<and>
   get_following i s = Json 200 (UsersJ (getFollowingByUserId i s)) \<and>
   getFollowersByUserId i s =
     filter (\<lambda>u. u_id u \<in> followerId ` {f \<in> set (map_values (follows s)). followedId f = i})
       (map_values (users s)) \<and>
   getFollowingByUserId i s =
     filter (\<lambda>u. u_id u \<in> followedId ` {f \<in> set (map_values (follows s)). followerId f = i})
       (map_values (users s)) \<and>
   get_followers i (set_passwords f s) =
     Json 200 (UsersJ (map (\<lambda>u. u\<lparr>password := f u\<rparr>) (getFollowersByUserId i s))) \<and>
   get_following i (set_passwords f s) =
     Json 200 (UsersJ (map (\<lambda>u. u\<lparr>password := f u\<rparr>) (getFollowingByUserId i s))) \<and>
   get_user j (set_passwords f s) = get_user j s"
proof -
  have a: "getFollowersByUserId i s =
     filter (\<lambda>u. u_id u \<in> followerId ` {f \<in> set (map_values (follows s)). followedId f = i})
       (map_values (users s))"
    by (auto simp: getFollowersByUserId_def Let_def intro: filter_cong)
  have b: "getFollowingByUserId i s =
     filter (\<lambda>u. u_id u \<in> followedId ` {f \<in> set (map_values (follows s)). followerId f = i})
       (map_values (users s))"
    by (auto simp: getFollowingByUserId_def Let_def intro: filter_cong)
  show ?thesis
    unfolding get_followers_def get_following_def followers_set_passwords
      following_set_passwords get_user_set_passwords
    by (intro conjI refl a b)
qed

theorem social_lists_expose_passwords_witness:
  "get_followers 1 engaged =
     Json 200 (UsersJ [\<lparr> u_id = 2, username = ''b'', email = ''b@x.org'', password = ''pw-b'',
                         coins = Num 5, avatarUrl = None, u_createdAt = 2 \<rparr>]) \<and>
   get_followers 1 (set_passwords (\<lambda>u. ''x'') engaged) =
     Json 200 (UsersJ [\<lparr> u_id = 2, username = ''b'', email = ''b@x.org'', password = ''x'',
                         coins = Num 5, avatarUrl = None, u_createdAt = 2 \<rparr>]) \<and>
   get_user 2 (set_passwords (\<lambda>u. ''x'') engaged) = get_user 2 engaged"
proof -
  have "getFollowersByUserId 1 engaged =
      [\<lparr> u_id = 2, username = ''b'', email = ''b@x.org'', password = ''pw-b'',
         coins = Num 5, avatarUrl = None, u_createdAt = 2 \<rparr>]"
    by code_simp
  with social_lists_expose_passwords [of 1 engaged "\<lambda>u. ''x''" 2]
  show ?thesis by simp
qed

subsection \<open>C10\<close>

text \<open>
  C10. When \<open>createNote\<close> is called for a user id that has no stored user, it throws (the
  coin award fails) after the note has been put into the map under a fresh id: the store
  then holds a note whose owner does not exist, and nothing undoes the insertion.
\<close>

theorem createNote_not_atomic:
  assumes "reachable s" and "getUser (in_userId ins) s = None"
  shows "fst (createNote ins now s) = Inl (UserNotFound (in_userId ins)) \<and>
         getNoteById (currentNoteId s) s = None \<and>
         (let s' = snd (createNote ins now s)
          in map_option n_id (getNoteById (currentNoteId s) s') = Some (currentNoteId s) \<and>
             map_option n_userId (getNoteById (currentNoteId s) s') = Some (in_userId ins) \<and>
             getUser (in_userId ins) s' = None \<and>
             users s' = users s \<and>
             currentNoteId s' = currentNoteId s + 1)"
proof -
  from assms(1) have "notes_ok s" using reachable_inv by (simp add: store_inv_def)
  then have "currentNoteId s \<notin> fst ` set (notes_m s)"
    by (auto simp: notes_ok_def)
  then have "getNoteById (currentNoteId s) s = None"
    by (simp add: getNoteById_def map_get_fresh)
  with assms(2) show ?thesis
    by (simp add: createNote_def updateUserCoins_def getUser_def getNoteById_def Let_def
        map_get_map_set)
qed

theorem createNote_not_atomic_witness:
  "reachable init \<and> getUser (in_userId orphan_upload) init = None \<and>
   fst (createNote orphan_upload 3 init) = Inl (UserNotFound 7) \<and>
   map_option n_userId (getNoteById 1 (snd (createNote orphan_upload 3 init))) = Some 7 \<and>
   getUser 7 (snd (createNote orphan_upload 3 init)) = None"
proof -
  have u: "in_userId orphan_upload = 7" by code_simp
  have g: "getUser (in_userId orphan_upload) init = None" by code_simp
  have c: "currentNoteId init = 1" by code_simp
  from createNote_not_atomic [OF reachable_init g, of 3] u g c reachable_init
  show ?thesis by (simp add: Let_def)
qed

end
